theory Spec2Isabelle
  imports Main "HOL-Library.Word" "HOL-Library.Signed_Division" "HOL-Library.Char_ord"
begin

section \<open>A prefix-notation calculator, parsed with exceptions and with results\<close>

text \<open>
  The repository holds one recursive-descent parser twice: \<^verbatim>\<open>ParserWithExceptions\<close>
  throws an \<^verbatim>\<open>Error\<close> carrying an \<^verbatim>\<open>ErrorKind\<close>, \<^verbatim>\<open>ParserWithResults\<close> returns a
  \<^verbatim>\<open>Result<T>\<close> from every rule. Both are embedded here function by function, the first
  under the prefix \<open>exc_\<close>, the second under the prefix \<open>res_\<close>.
\<close>

subsection \<open>Data: parser.hpp and the nested types of the two parsers\<close>

datatype ErrorKind = InvalidOperator | InvalidCharacter | UnexpectedEOF

datatype Op = Add | Sub | Mul | Div

text \<open>\<^verbatim>\<open>Result<T>\<close>: the union of \<^verbatim>\<open>ok\<close> and \<^verbatim>\<open>error\<close>, tagged by \<^verbatim>\<open>is_error\<close>.\<close>

datatype 'a Result = Ok 'a | Err ErrorKind

fun is_error :: "'a Result \<Rightarrow> bool" where
  "is_error (Ok v) = False"
| "is_error (Err e) = True"

type_synonym int64 = "64 word"

text \<open>
  \<^verbatim>\<open>struct Parser { const char* p; const char* end; }\<close>. The two pointers are kept as
  offsets from \<^verbatim>\<open>program.data()\<close>; the borrowed bytes of the program are the field
  \<open>program\<close>.
\<close>

record parser =
  program :: string
  p :: nat
  endp :: nat

text \<open>\<^verbatim>\<open>Parser(const std::string& program) : p(program.data()), end(program.data() + program.size())\<close>\<close>

definition Parser :: "string \<Rightarrow> parser" where
  "Parser prog = \<lparr>program = prog, p = 0, endp = length prog\<rparr>"

text \<open>
  What C++ leaves undefined is an outcome of its own, never a value: a read through a
  pointer outside the program's bytes, and an \<^verbatim>\<open>int64_t\<close> division whose divisor is zero
  or whose quotient is not representable (both trap on the usual targets).
\<close>

datatype fault = OutOfBounds | DivideError

text \<open>Sequencing of steps that may hit undefined behaviour.\<close>

fun ub_bind :: "fault + 'a \<Rightarrow> ('a \<Rightarrow> fault + 'b) \<Rightarrow> fault + 'b" where
  "ub_bind (Inl f) k = Inl f"
| "ub_bind (Inr x) k = k x"

text \<open>\<^verbatim>\<open>*p\<close>\<close>

definition deref :: "parser \<Rightarrow> fault + char" where
  "deref s = (if p s < length (program s) then Inr (program s ! p s) else Inl OutOfBounds)"

text \<open>
  \<^verbatim>\<open>std::isdigit\<close> and \<^verbatim>\<open>std::iswspace\<close> of the C library, in the "C" locale the program
  runs in (it never calls \<^verbatim>\<open>setlocale\<close>): the ten decimal digits; space, \<^verbatim>\<open>\t \n \v \f \r\<close>.
  A byte above \<^verbatim>\<open>0x7F\<close> is in neither class. The order on \<open>char\<close> is the order of the
  byte values.
\<close>

definition isdigit :: "char \<Rightarrow> bool" where
  "isdigit c = (CHR ''0'' \<le> c \<and> c \<le> CHR ''9'')"

definition iswspace :: "char \<Rightarrow> bool" where
  "iswspace c = (c = CHR '' '' \<or> (CHR 0x09 \<le> c \<and> c \<le> CHR 0x0D))"

text \<open>
  \<^verbatim>\<open>left / right\<close> on \<^verbatim>\<open>int64_t\<close>: the quotient truncated towards zero. The sum, the
  difference, the product and the fold of \<^verbatim>\<open>number\<close> are \<open>+\<close>, \<open>-\<close> and \<open>*\<close> of \<open>64 word\<close>:
  the code checks no overflow, and where C++ leaves the overflow undefined the value is
  taken modulo \<open>2 ^ 64\<close>, as the two's complement target computes it.
\<close>

definition int64_div :: "int64 \<Rightarrow> int64 \<Rightarrow> fault + int64" where
  "int64_div a b =
     (if b = 0 \<or> (a = - (2 ^ 63) \<and> b = - 1) then Inl DivideError
      else Inr (word_of_int (sint a sdiv sint b)))"

text \<open>\<^verbatim>\<open>c - '0'\<close>, converted to \<^verbatim>\<open>int64_t\<close>.\<close>

definition digit_value :: "char \<Rightarrow> int64" where
  "digit_value c = word_of_int (int (of_char c) - int (of_char (CHR ''0'')))"

subsection \<open>parser_with_results.cpp\<close>

text \<open>\<^verbatim>\<open>char peek()\<close>\<close>

definition res_peek :: "parser \<Rightarrow> fault + char" where
  "res_peek s = (if p s = endp s then Inr (CHR 0x00) else deref s)"

text \<open>\<^verbatim>\<open>Result<char> get_char()\<close>\<close>

definition res_get_char :: "parser \<Rightarrow> fault + (char Result \<times> parser)" where
  "res_get_char s =
     (if p s = endp s then Inr (Err UnexpectedEOF, s)
      else ub_bind (deref s) (\<lambda>c. Inr (Ok c, s\<lparr>p := p s + 1\<rparr>)))"

lemma ub_bind_cong [fundef_cong]:
  "m = m' \<Longrightarrow> (\<And>x. m' = Inr x \<Longrightarrow> k x = k' x) \<Longrightarrow> ub_bind m k = ub_bind m' k'"
  by (cases m') auto

lemma ub_bind_weak_cong [cong]: "m = m' \<Longrightarrow> ub_bind m k = ub_bind m' k"
  by simp

lemma ub_bind_Inr_iff: "ub_bind m k = Inr y \<longleftrightarrow> (\<exists>x. m = Inr x \<and> k x = Inr y)"
  by (cases m) auto

lemma res_peek_Inr:
  "res_peek s = Inr c \<Longrightarrow> c \<noteq> CHR 0x00 \<Longrightarrow> p s \<noteq> endp s \<and> p s < length (program s)"
  by (auto simp: res_peek_def deref_def split: if_splits)

lemma res_get_char_Inr:
  "res_get_char s = Inr (r, s') \<Longrightarrow>
     s' = s \<and> r = Err UnexpectedEOF \<and> p s = endp s \<or>
     s' = s\<lparr>p := p s + 1\<rparr> \<and> r = Ok (program s ! p s) \<and> p s \<noteq> endp s \<and> p s < length (program s)"
  by (auto simp: res_get_char_def deref_def split: if_splits)

text \<open>\<^verbatim>\<open>void skip_whitespace()\<close>: the result of \<^verbatim>\<open>get_char\<close> is dropped.\<close>

function res_skip_whitespace :: "parser \<Rightarrow> fault + parser" where
  "res_skip_whitespace s =
     ub_bind (res_peek s) (\<lambda>c.
       if iswspace c then ub_bind (res_get_char s) (\<lambda>(x, s'). res_skip_whitespace s')
       else Inr s)"
  by pat_completeness auto
termination
  apply (relation "measure (\<lambda>s. length (program s) - p s)")
   apply simp
  apply (auto dest!: res_peek_Inr res_get_char_Inr simp: iswspace_def)
  done

declare res_skip_whitespace.simps [simp del]

text \<open>\<^verbatim>\<open>Result<char> expect_char(char c)\<close>\<close>

definition res_expect_char :: "char \<Rightarrow> parser \<Rightarrow> fault + (char Result \<times> parser)" where
  "res_expect_char c s =
     ub_bind (res_get_char s) (\<lambda>(x, s').
       case x of
         Err e \<Rightarrow> Inr (x, s')
       | Ok xc \<Rightarrow> if xc \<noteq> c then Inr (Err InvalidCharacter, s') else Inr (x, s'))"

text \<open>
  \<^verbatim>\<open>Result<int64_t> number()\<close>: the \<^verbatim>\<open>while\<close> loop, with the local \<^verbatim>\<open>result\<close> as its
  accumulator.
\<close>

function res_number_loop :: "int64 \<Rightarrow> parser \<Rightarrow> fault + (int64 Result \<times> parser)" where
  "res_number_loop result s =
     ub_bind (res_peek s) (\<lambda>d.
       if isdigit d then
         ub_bind (res_get_char s) (\<lambda>(c, s').
           case c of
             Err e \<Rightarrow> Inr (Err e, s')
           | Ok ch \<Rightarrow> res_number_loop (result * 10 + digit_value ch) s')
       else Inr (Ok result, s))"
  by pat_completeness auto
termination
  apply (relation "measure (\<lambda>(result, s). length (program s) - p s)")
   apply simp
  apply (auto dest!: res_peek_Inr res_get_char_Inr simp: isdigit_def)
  done

declare res_number_loop.simps [simp del]

definition res_number :: "parser \<Rightarrow> fault + (int64 Result \<times> parser)" where
  "res_number s = res_number_loop 0 s"

text \<open>\<^verbatim>\<open>Result<Op> operation()\<close>\<close>

definition res_operation :: "parser \<Rightarrow> fault + (Op Result \<times> parser)" where
  "res_operation s =
     ub_bind (res_get_char s) (\<lambda>(c, s').
       case c of
         Err e \<Rightarrow> Inr (Err e, s')
       | Ok ch \<Rightarrow>
           if ch = CHR ''+'' then Inr (Ok Add, s')
           else if ch = CHR ''-'' then Inr (Ok Sub, s')
           else if ch = CHR ''*'' then Inr (Ok Mul, s')
           else if ch = CHR ''/'' then Inr (Ok Div, s')
           else Inr (Err InvalidOperator, s'))"

text \<open>
  The cursor only moves forward, over the same bytes, and not beyond \<^verbatim>\<open>end\<close> when it
  started before it: what the termination of the two mutually recursive rules rests on.
\<close>

definition forward :: "parser \<Rightarrow> parser \<Rightarrow> bool" where
  "forward s s' =
     (program s' = program s \<and> endp s' = endp s \<and> p s \<le> p s' \<and>
      (p s \<le> endp s \<longrightarrow> p s' \<le> endp s))"

lemma forward_refl [simp]: "forward s s"
  by (simp add: forward_def)

lemma forward_trans: "forward s s' \<Longrightarrow> forward s' s'' \<Longrightarrow> forward s s''"
  by (auto simp: forward_def)

lemma res_get_char_forward: "res_get_char s = Inr (r, s') \<Longrightarrow> forward s s'"
  by (auto dest!: res_get_char_Inr simp: forward_def)

lemma res_skip_whitespace_forward: "res_skip_whitespace s = Inr s' \<Longrightarrow> forward s s'"
proof (induction s rule: res_skip_whitespace.induct)
  case (1 s)
  from "1.prems" obtain c where pk: "res_peek s = Inr c"
    by (cases "res_peek s") (auto simp: res_skip_whitespace.simps [of s])
  show ?case
  proof (cases "iswspace c")
    case False
    with pk "1.prems" show ?thesis by (simp add: res_skip_whitespace.simps [of s])
  next
    case True
    with pk "1.prems" obtain x s1 where gc: "res_get_char s = Inr (x, s1)"
      and rest: "res_skip_whitespace s1 = Inr s'"
      by (cases "res_get_char s") (auto simp: res_skip_whitespace.simps [of s])
    from "1.IH" [OF pk True gc refl rest] res_get_char_forward [OF gc]
    show ?thesis by (rule forward_trans [rotated])
  qed
qed

lemma res_expect_char_forward: "res_expect_char c s = Inr (r, s') \<Longrightarrow> forward s s'"
  by (cases "res_get_char s")
     (auto simp: res_expect_char_def split: Result.splits if_splits dest: res_get_char_forward)

lemma res_operation_forward: "res_operation s = Inr (r, s') \<Longrightarrow> forward s s'"
  by (cases "res_get_char s")
     (auto simp: res_operation_def split: Result.splits if_splits dest: res_get_char_forward)

lemma res_operation_Ok:
  "res_operation s = Inr (Ok op, s') \<Longrightarrow> s' = s\<lparr>p := p s + 1\<rparr> \<and> p s < length (program s)"
  by (cases "res_get_char s")
     (auto simp: res_operation_def split: Result.splits if_splits dest!: res_get_char_Inr)

lemma res_number_loop_forward: "res_number_loop acc s = Inr (r, s') \<Longrightarrow> forward s s'"
proof (induction acc s rule: res_number_loop.induct)
  case (1 result s)
  from "1.prems" obtain d where pk: "res_peek s = Inr d"
    by (cases "res_peek s") (auto simp: res_number_loop.simps [of result s])
  show ?case
  proof (cases "isdigit d")
    case False
    with pk "1.prems" show ?thesis by (simp add: res_number_loop.simps [of result s])
  next
    case True
    with pk "1.prems" obtain c s1 where gc: "res_get_char s = Inr (c, s1)"
      by (cases "res_get_char s") (auto simp: res_number_loop.simps [of result s])
    note fw = res_get_char_forward [OF gc]
    show ?thesis
    proof (cases c)
      case (Err e)
      with pk True gc "1.prems" fw show ?thesis
        by (simp add: res_number_loop.simps [of result s])
    next
      case (Ok ch)
      with pk True gc "1.prems"
      have rest: "res_number_loop (result * 10 + digit_value ch) s1 = Inr (r, s')"
        by (simp add: res_number_loop.simps [of result s])
      from "1.IH" [OF pk True gc refl Ok rest] fw show ?thesis
        by (rule forward_trans [rotated])
    qed
  qed
qed

lemma res_number_forward: "res_number s = Inr (r, s') \<Longrightarrow> forward s s'"
  unfolding res_number_def by (rule res_number_loop_forward)

text \<open>
  \<^verbatim>\<open>Result<int64_t> inner_expression()\<close> and \<^verbatim>\<open>Result<int64_t> expression()\<close>. \<^verbatim>\<open>Op\<close> has
  the four values \<^verbatim>\<open>operation\<close> can return, so the \<^verbatim>\<open>default\<close> branch of the \<^verbatim>\<open>switch\<close>
  in \<^verbatim>\<open>inner_expression\<close> has no counterpart.
\<close>

function (domintros) res_inner_expression :: "parser \<Rightarrow> fault + (int64 Result \<times> parser)"
  and res_expression :: "parser \<Rightarrow> fault + (int64 Result \<times> parser)" where
  "res_inner_expression s =
     ub_bind (res_operation s) (\<lambda>(op, s1).
       case op of
         Err e \<Rightarrow> Inr (Err e, s1)
       | Ok op_ok \<Rightarrow>
           ub_bind (res_expression s1) (\<lambda>(left, s2).
             case left of
               Err e \<Rightarrow> Inr (left, s2)
             | Ok left_ok \<Rightarrow>
                 ub_bind (res_expression s2) (\<lambda>(right, s3).
                   case right of
                     Err e \<Rightarrow> Inr (right, s3)
                   | Ok right_ok \<Rightarrow>
                       (case op_ok of
                          Add \<Rightarrow> Inr (Ok (left_ok + right_ok), s3)
                        | Sub \<Rightarrow> Inr (Ok (left_ok - right_ok), s3)
                        | Mul \<Rightarrow> Inr (Ok (left_ok * right_ok), s3)
                        | Div \<Rightarrow> ub_bind (int64_div left_ok right_ok) (\<lambda>q. Inr (Ok q, s3))))))"
| "res_expression s =
     ub_bind (res_skip_whitespace s) (\<lambda>s1.
       ub_bind (res_peek s1) (\<lambda>c.
         if c = CHR ''('' then
           ub_bind (res_get_char s1) (\<lambda>(paren, s2).
             ub_bind (res_skip_whitespace s2) (\<lambda>s3.
               ub_bind (res_expression s3) (\<lambda>(val, s4).
                 case val of
                   Err e \<Rightarrow> Inr (val, s4)
                 | Ok val_ok \<Rightarrow>
                     ub_bind (res_skip_whitespace s4) (\<lambda>s5.
                       ub_bind (res_expect_char (CHR '')'') s5) (\<lambda>(x, s6).
                         case x of
                           Err e \<Rightarrow> Inr (Err e, s6)
                         | Ok x_ok \<Rightarrow> Inr (val, s6))))))
         else if CHR ''0'' \<le> c \<and> c \<le> CHR ''9'' then res_number s1
         else res_inner_expression s1))"
  by pat_completeness auto

lemma res_expression_forward_dom:
  "res_inner_expression_res_expression_dom (Inl s) \<Longrightarrow>
     (\<forall>r s'. res_inner_expression s = Inr (r, s') \<longrightarrow> forward s s')"
  "res_inner_expression_res_expression_dom (Inr s) \<Longrightarrow>
     (\<forall>r s'. res_expression s = Inr (r, s') \<longrightarrow> forward s s')"
proof (induction rule: res_inner_expression_res_expression.pinduct)
  case (1 s)
  show ?case
  proof (intro allI impI)
    fix r s'
    assume run: "res_inner_expression s = Inr (r, s')"
    note unf = res_inner_expression.psimps [OF "1.hyps"]
    from run obtain op s1 where op: "res_operation s = Inr (op, s1)"
      unfolding unf by (cases "res_operation s") auto
    note f1 = res_operation_forward [OF op]
    show "forward s s'"
    proof (cases op)
      case (Err e)
      with run op f1 show ?thesis unfolding unf by simp
    next
      case (Ok op_ok)
      with run op obtain left s2 where l: "res_expression s1 = Inr (left, s2)"
        unfolding unf by (cases "res_expression s1") auto
      from "1.IH"(1) [OF op refl Ok] l have f2: "forward s1 s2" by blast
      show ?thesis
      proof (cases left)
        case (Err e)
        with run op Ok l f1 f2 show ?thesis
          unfolding unf by (auto intro: forward_trans)
      next
        case lok: (Ok left_ok)
        with run op Ok l obtain right s3 where r: "res_expression s2 = Inr (right, s3)"
          unfolding unf by (cases "res_expression s2") auto
        from "1.IH"(2) [OF op refl Ok l refl lok] r have f3: "forward s2 s3" by blast
        from run op Ok l lok r have "s' = s3"
          unfolding unf by (auto simp: ub_bind_Inr_iff split: Result.splits Op.splits)
        with f1 f2 f3 show ?thesis by (blast intro: forward_trans)
      qed
    qed
  qed
next
  case (2 s)
  show ?case
  proof (intro allI impI)
    fix r s'
    assume run: "res_expression s = Inr (r, s')"
    note unf = res_expression.psimps [OF "2.hyps"]
    from run obtain s1 where ws: "res_skip_whitespace s = Inr s1"
      unfolding unf by (cases "res_skip_whitespace s") auto
    with run obtain c where pk: "res_peek s1 = Inr c"
      unfolding unf by (cases "res_peek s1") auto
    note f1 = res_skip_whitespace_forward [OF ws]
    consider (paren) "c = CHR ''(''" | (num) "c \<noteq> CHR ''(''" "CHR ''0'' \<le> c \<and> c \<le> CHR ''9''"
      | (inner) "c \<noteq> CHR ''(''" "\<not> (CHR ''0'' \<le> c \<and> c \<le> CHR ''9'')" by blast
    then show "forward s s'"
    proof cases
      case paren
      with run ws pk obtain x s2 where gc: "res_get_char s1 = Inr (x, s2)"
        unfolding unf by (cases "res_get_char s1") auto
      with run ws pk paren obtain s3 where ws2: "res_skip_whitespace s2 = Inr s3"
        unfolding unf by (cases "res_skip_whitespace s2") auto
      with run ws pk paren gc obtain val s4 where e: "res_expression s3 = Inr (val, s4)"
        unfolding unf by (cases "res_expression s3") auto
      from "2.IH"(1) [OF ws pk paren gc refl ws2] e have f4: "forward s3 s4" by blast
      note f2 = res_get_char_forward [OF gc] and f3 = res_skip_whitespace_forward [OF ws2]
      have f04: "forward s s4" using f1 f2 f3 f4 by (blast intro: forward_trans)
      show ?thesis
      proof (cases val)
        case (Err e)
        with run ws pk paren gc ws2 e f04 show ?thesis
          unfolding unf by auto
      next
        case (Ok v)
        with run ws pk paren gc ws2 e obtain s5 where ws5: "res_skip_whitespace s4 = Inr s5"
          unfolding unf by (cases "res_skip_whitespace s4") auto
        with run ws pk paren gc ws2 e Ok obtain x6 s6 where ex: "res_expect_char (CHR '')'') s5 = Inr (x6, s6)"
          unfolding unf by (cases "res_expect_char (CHR '')'') s5") auto
        with run ws pk paren gc ws2 e Ok ws5 have "s' = s6"
          unfolding unf by (auto split: Result.splits)
        with f04 res_skip_whitespace_forward [OF ws5] res_expect_char_forward [OF ex]
        show ?thesis by (blast intro: forward_trans)
      qed
    next
      case num
      with run ws pk have "res_number s1 = Inr (r, s')"
        unfolding unf by auto
      from f1 res_number_forward [OF this] show ?thesis by (rule forward_trans)
    next
      case inner
      with run ws pk have "res_inner_expression s1 = Inr (r, s')"
        unfolding unf by auto
      with "2.IH"(2) [OF ws pk inner] f1 show ?thesis by (blast intro: forward_trans)
    qed
  qed
qed

lemma forward_remaining:
  "forward s s' \<Longrightarrow> length (program s') - p s' \<le> length (program s) - p s"
  by (auto simp: forward_def)

lemma res_get_char_paren:
  "res_peek s = Inr (CHR ''('') \<Longrightarrow> res_get_char s = Inr (x, s') \<Longrightarrow>
     s' = s\<lparr>p := p s + 1\<rparr> \<and> p s < length (program s)"
  by (auto dest!: res_peek_Inr res_get_char_Inr)

text \<open>
  Every call of either rule ends: a call of \<open>res_expression\<close> from \<open>res_inner_expression\<close> has
  one character less before it, a call of \<open>res_inner_expression\<close> from \<open>res_expression\<close> has
  no more characters before it than its caller had.
\<close>

lemma res_expression_total: "res_inner_expression_res_expression_dom x"
proof (induction x rule: measure_induct_rule
    [where f = "\<lambda>x. case x of Inl s \<Rightarrow> 2 * (length (program s) - p s)
                          | Inr s \<Rightarrow> 2 * (length (program s) - p s) + 1"])
  case (less x)
  show ?case
  proof (cases x)
    case (Inl s)
    show ?thesis
      unfolding Inl
    proof (rule res_inner_expression_res_expression.domintros(1))
      fix s1 op
      assume op: "res_operation s = Inr (Ok op, s1)"
      with Inl show "res_inner_expression_res_expression_dom (Inr s1)"
        by (intro less.IH) (auto dest!: res_operation_Ok)
    next
      fix s1 op s2 left
      assume op: "res_operation s = Inr (Ok op, s1)" and l: "res_expression s1 = Inr (Ok left, s2)"
      from op Inl have "res_inner_expression_res_expression_dom (Inr s1)"
        by (intro less.IH) (auto dest!: res_operation_Ok)
      with l have "forward s1 s2" using res_expression_forward_dom(2) by blast
      from forward_remaining [OF this] op Inl
      show "res_inner_expression_res_expression_dom (Inr s2)"
        by (intro less.IH) (auto dest!: res_operation_Ok)
    qed
  next
    case (Inr s)
    show ?thesis
      unfolding Inr
    proof (rule res_inner_expression_res_expression.domintros(2))
      fix s1 paren s2 s3
      assume ws: "res_skip_whitespace s = Inr s1" and pk: "res_peek s1 = Inr (CHR ''('')"
        and gc: "res_get_char s1 = Inr (paren, s2)" and ws2: "res_skip_whitespace s2 = Inr s3"
      from ws ws2 have "forward s s1" "forward s2 s3" by (auto dest: res_skip_whitespace_forward)
      from this [THEN forward_remaining] pk gc Inr
      show "res_inner_expression_res_expression_dom (Inr s3)"
        by (intro less.IH) (auto dest!: res_get_char_paren)
    next
      fix s1 c
      assume ws: "res_skip_whitespace s = Inr s1"
      then have "forward s s1" by (rule res_skip_whitespace_forward)
      from forward_remaining [OF this] Inr
      show "res_inner_expression_res_expression_dom (Inl s1)"
        by (intro less.IH) simp
    next
      fix s1 c
      assume ws: "res_skip_whitespace s = Inr s1"
      then have "forward s s1" by (rule res_skip_whitespace_forward)
      from forward_remaining [OF this] Inr
      show "res_inner_expression_res_expression_dom (Inl s1)"
        by (intro less.IH) simp
    qed
  qed
qed

termination res_inner_expression
  by (simp add: res_expression_total)


declare res_inner_expression.simps [simp del] res_expression.simps [simp del]

lemma res_expression_forward: "res_expression s = Inr (r, s') \<Longrightarrow> forward s s'"
  using res_expression_forward_dom(2) [of s] res_expression_total by blast

lemma res_inner_expression_forward: "res_inner_expression s = Inr (r, s') \<Longrightarrow> forward s s'"
  using res_expression_forward_dom(1) [of s] res_expression_total by blast

text \<open>\<^verbatim>\<open>int64_t execute(const std::string& program) const\<close>\<close>

definition res_execute :: "string \<Rightarrow> fault + int64" where
  "res_execute prog =
     ub_bind (res_expression (Parser prog)) (\<lambda>(result, s).
       case result of
         Err e \<Rightarrow> Inr 0
       | Ok v \<Rightarrow> Inr v)"

subsection \<open>parser_with_exceptions.cpp\<close>

text \<open>
  A call either hits undefined behaviour, or throws an \<^verbatim>\<open>Error\<close> (\<open>Inl\<close> of its kind), or
  returns (\<open>Inr\<close> of its value); the parser it has worked on is there in both cases. A
  thrown \<^verbatim>\<open>Error\<close> leaves every rule it passes through, up to the \<^verbatim>\<open>catch\<close> in
  \<^verbatim>\<open>execute\<close>: that is \<open>exc_bind\<close>.
\<close>

fun exc_bind ::
  "fault + ((ErrorKind + 'a) \<times> parser) \<Rightarrow> ('a \<Rightarrow> parser \<Rightarrow> fault + ((ErrorKind + 'b) \<times> parser))
     \<Rightarrow> fault + ((ErrorKind + 'b) \<times> parser)" where
  "exc_bind (Inl f) k = Inl f"
| "exc_bind (Inr (Inl e, s)) k = Inr (Inl e, s)"
| "exc_bind (Inr (Inr v, s)) k = k v s"

lemma exc_bind_cong [fundef_cong]:
  "m = m' \<Longrightarrow> (\<And>v s. m' = Inr (Inr v, s) \<Longrightarrow> k v s = k' v s) \<Longrightarrow> exc_bind m k = exc_bind m' k'"
proof -
  assume eq: "m = m'" and k: "\<And>v s. m' = Inr (Inr v, s) \<Longrightarrow> k v s = k' v s"
  show ?thesis
  proof (cases m')
    case (Inl f)
    with eq show ?thesis by simp
  next
    case (Inr b)
    obtain x s where b: "b = (x, s)" by (cases b)
    from Inr b eq k show ?thesis by (cases x) auto
  qed
qed

lemma exc_bind_weak_cong [cong]: "m = m' \<Longrightarrow> exc_bind m k = exc_bind m' k"
  by simp

text \<open>\<^verbatim>\<open>char peek()\<close>\<close>

definition exc_peek :: "parser \<Rightarrow> fault + char" where
  "exc_peek s = (if p s = endp s then Inr (CHR 0x00) else deref s)"

text \<open>\<^verbatim>\<open>char get_char()\<close>\<close>

definition exc_get_char :: "parser \<Rightarrow> fault + ((ErrorKind + char) \<times> parser)" where
  "exc_get_char s =
     (if p s = endp s then Inr (Inl UnexpectedEOF, s)
      else ub_bind (deref s) (\<lambda>c. Inr (Inr c, s\<lparr>p := p s + 1\<rparr>)))"

lemma exc_peek_Inr:
  "exc_peek s = Inr c \<Longrightarrow> c \<noteq> CHR 0x00 \<Longrightarrow> p s \<noteq> endp s \<and> p s < length (program s)"
  by (auto simp: exc_peek_def deref_def split: if_splits)

lemma exc_get_char_Inr:
  "exc_get_char s = Inr (r, s') \<Longrightarrow>
     s' = s \<and> r = Inl UnexpectedEOF \<and> p s = endp s \<or>
     s' = s\<lparr>p := p s + 1\<rparr> \<and> r = Inr (program s ! p s) \<and> p s \<noteq> endp s \<and> p s < length (program s)"
  by (auto simp: exc_get_char_def deref_def split: if_splits)

text \<open>\<^verbatim>\<open>void skip_whitespace()\<close>\<close>

function exc_skip_whitespace :: "parser \<Rightarrow> fault + ((ErrorKind + unit) \<times> parser)" where
  "exc_skip_whitespace s =
     ub_bind (exc_peek s) (\<lambda>c.
       if iswspace c then exc_bind (exc_get_char s) (\<lambda>x s'. exc_skip_whitespace s')
       else Inr (Inr (), s))"
  by pat_completeness auto
termination
  apply (relation "measure (\<lambda>s. length (program s) - p s)")
   apply simp
  apply (auto dest!: exc_peek_Inr exc_get_char_Inr simp: iswspace_def)
  done

declare exc_skip_whitespace.simps [simp del]

text \<open>\<^verbatim>\<open>void expect_char(char c)\<close>\<close>

definition exc_expect_char :: "char \<Rightarrow> parser \<Rightarrow> fault + ((ErrorKind + unit) \<times> parser)" where
  "exc_expect_char c s =
     exc_bind (exc_get_char s) (\<lambda>x s'.
       if x \<noteq> c then Inr (Inl InvalidCharacter, s') else Inr (Inr (), s'))"

text \<open>\<^verbatim>\<open>int64_t number()\<close>\<close>

function exc_number_loop :: "int64 \<Rightarrow> parser \<Rightarrow> fault + ((ErrorKind + int64) \<times> parser)" where
  "exc_number_loop result s =
     ub_bind (exc_peek s) (\<lambda>d.
       if isdigit d then
         exc_bind (exc_get_char s) (\<lambda>c s'. exc_number_loop (result * 10 + digit_value c) s')
       else Inr (Inr result, s))"
  by pat_completeness auto
termination
  apply (relation "measure (\<lambda>(result, s). length (program s) - p s)")
   apply simp
  apply (auto dest!: exc_peek_Inr exc_get_char_Inr simp: isdigit_def)
  done

declare exc_number_loop.simps [simp del]

definition exc_number :: "parser \<Rightarrow> fault + ((ErrorKind + int64) \<times> parser)" where
  "exc_number s = exc_number_loop 0 s"

text \<open>\<^verbatim>\<open>Op operation()\<close>\<close>

definition exc_operation :: "parser \<Rightarrow> fault + ((ErrorKind + Op) \<times> parser)" where
  "exc_operation s =
     exc_bind (exc_get_char s) (\<lambda>c s'.
       if c = CHR ''+'' then Inr (Inr Add, s')
       else if c = CHR ''-'' then Inr (Inr Sub, s')
       else if c = CHR ''*'' then Inr (Inr Mul, s')
       else if c = CHR ''/'' then Inr (Inr Div, s')
       else Inr (Inl InvalidOperator, s'))"

text \<open>
  \<^verbatim>\<open>int64_t inner_expression()\<close> and \<^verbatim>\<open>int64_t expression()\<close>. Here too the \<^verbatim>\<open>default\<close>
  branch of the \<^verbatim>\<open>switch\<close> over \<^verbatim>\<open>Op\<close> has no counterpart.
\<close>

function (domintros) exc_inner_expression :: "parser \<Rightarrow> fault + ((ErrorKind + int64) \<times> parser)"
  and exc_expression :: "parser \<Rightarrow> fault + ((ErrorKind + int64) \<times> parser)" where
  "exc_inner_expression s =
     exc_bind (exc_operation s) (\<lambda>op s1.
       exc_bind (exc_expression s1) (\<lambda>left s2.
         exc_bind (exc_expression s2) (\<lambda>right s3.
           case op of
             Add \<Rightarrow> Inr (Inr (left + right), s3)
           | Sub \<Rightarrow> Inr (Inr (left - right), s3)
           | Mul \<Rightarrow> Inr (Inr (left * right), s3)
           | Div \<Rightarrow> ub_bind (int64_div left right) (\<lambda>q. Inr (Inr q, s3)))))"
| "exc_expression s =
     exc_bind (exc_skip_whitespace s) (\<lambda>u1 s1.
       ub_bind (exc_peek s1) (\<lambda>c.
         if c = CHR ''('' then
           exc_bind (exc_get_char s1) (\<lambda>paren s2.
             exc_bind (exc_skip_whitespace s2) (\<lambda>u3 s3.
               exc_bind (exc_expression s3) (\<lambda>val s4.
                 exc_bind (exc_skip_whitespace s4) (\<lambda>u5 s5.
                   exc_bind (exc_expect_char (CHR '')'') s5) (\<lambda>u6 s6.
                     Inr (Inr val, s6))))))
         else if CHR ''0'' \<le> c \<and> c \<le> CHR ''9'' then exc_number s1
         else exc_inner_expression s1))"
  by pat_completeness auto

text \<open>
  The two parsers side by side: a \<^verbatim>\<open>Result\<close> read as what the other parser does, a thrown
  \<^verbatim>\<open>Error\<close> of the same kind or a returned value.
\<close>

definition exc_of_res :: "fault + ('a Result \<times> parser) \<Rightarrow> fault + ((ErrorKind + 'a) \<times> parser)" where
  "exc_of_res m =
     ub_bind m (\<lambda>(r, s). case r of Ok v \<Rightarrow> Inr (Inr v, s) | Err e \<Rightarrow> Inr (Inl e, s))"

lemma exc_of_res_simps [simp]:
  "exc_of_res (Inl f) = Inl f"
  "exc_of_res (Inr (Ok v, s)) = Inr (Inr v, s)"
  "exc_of_res (Inr (Err e, s)) = Inr (Inl e, s)"
  by (simp_all add: exc_of_res_def)

lemma exc_peek_eq: "exc_peek s = res_peek s"
  by (simp add: exc_peek_def res_peek_def)

lemma exc_get_char_eq: "exc_get_char s = exc_of_res (res_get_char s)"
  by (cases "deref s") (simp_all add: exc_get_char_def res_get_char_def)

lemma exc_skip_whitespace_eq:
  "exc_skip_whitespace s = ub_bind (res_skip_whitespace s) (\<lambda>s'. Inr (Inr (), s'))"
proof (induction s rule: res_skip_whitespace.induct)
  case (1 s)
  show ?case
  proof (cases "res_peek s")
    case (Inl f)
    then show ?thesis
      by (simp add: exc_skip_whitespace.simps [of s] res_skip_whitespace.simps [of s] exc_peek_eq)
  next
    case (Inr c)
    show ?thesis
    proof (cases "iswspace c")
      case False
      with Inr show ?thesis
        by (simp add: exc_skip_whitespace.simps [of s] res_skip_whitespace.simps [of s] exc_peek_eq)
    next
      case True
      show ?thesis
      proof (cases "res_get_char s")
        case (Inl f)
        with Inr True show ?thesis
          by (simp add: exc_skip_whitespace.simps [of s] res_skip_whitespace.simps [of s]
              exc_peek_eq exc_get_char_eq)
      next
        case gc: (Inr b)
        obtain x s1 where b: "b = (x, s1)" by (cases b)
        from Inr True have "p s \<noteq> endp s" by (auto dest!: res_peek_Inr simp: iswspace_def)
        with gc b obtain ch where x: "x = Ok ch" by (auto dest!: res_get_char_Inr)
        from "1.IH" [OF Inr True gc [unfolded b] refl] Inr True gc b x show ?thesis
          by (simp add: exc_skip_whitespace.simps [of s] res_skip_whitespace.simps [of s]
              exc_peek_eq exc_get_char_eq)
      qed
    qed
  qed
qed

lemma exc_expect_char_eq:
  "exc_expect_char c s =
     ub_bind (res_expect_char c s) (\<lambda>(r, s').
       case r of Ok x \<Rightarrow> Inr (Inr (), s') | Err e \<Rightarrow> Inr (Inl e, s'))"
proof (cases "res_get_char s")
  case (Inl f)
  then show ?thesis by (simp add: exc_expect_char_def res_expect_char_def exc_get_char_eq)
next
  case (Inr b)
  obtain x s1 where b: "b = (x, s1)" by (cases b)
  from Inr b show ?thesis
    by (cases x) (simp_all add: exc_expect_char_def res_expect_char_def exc_get_char_eq)
qed

lemma exc_operation_eq: "exc_operation s = exc_of_res (res_operation s)"
proof (cases "res_get_char s")
  case (Inl f)
  then show ?thesis by (simp add: exc_operation_def res_operation_def exc_get_char_eq)
next
  case (Inr b)
  obtain x s1 where b: "b = (x, s1)" by (cases b)
  from Inr b show ?thesis
    by (cases x) (simp_all add: exc_operation_def res_operation_def exc_get_char_eq)
qed

lemma exc_number_loop_eq: "exc_number_loop acc s = exc_of_res (res_number_loop acc s)"
proof (induction acc s rule: res_number_loop.induct)
  case (1 result s)
  note unf = exc_number_loop.simps [of result s] res_number_loop.simps [of result s]
  show ?case
  proof (cases "res_peek s")
    case (Inl f)
    then show ?thesis by (simp add: unf exc_peek_eq)
  next
    case (Inr d)
    show ?thesis
    proof (cases "isdigit d")
      case False
      with Inr show ?thesis by (simp add: unf exc_peek_eq)
    next
      case True
      show ?thesis
      proof (cases "res_get_char s")
        case (Inl f)
        with Inr True show ?thesis by (simp add: unf exc_peek_eq exc_get_char_eq)
      next
        case gc: (Inr b)
        obtain x s1 where b: "b = (x, s1)" by (cases b)
        show ?thesis
        proof (cases x)
          case (Err e)
          with Inr True gc b show ?thesis by (simp add: unf exc_peek_eq exc_get_char_eq)
        next
          case (Ok ch)
          from "1.IH" [OF Inr True gc [unfolded b] refl Ok] Inr True gc b Ok show ?thesis
            by (simp add: unf exc_peek_eq exc_get_char_eq)
        qed
      qed
    qed
  qed
qed

lemma exc_number_eq: "exc_number s = exc_of_res (res_number s)"
  by (simp add: exc_number_def res_number_def exc_number_loop_eq)

lemma res_cases [case_names Fault Error Value]:
  fixes m :: "fault + ('a Result \<times> parser)"
  assumes "\<And>f. m = Inl f \<Longrightarrow> P" and "\<And>e s. m = Inr (Err e, s) \<Longrightarrow> P"
    and "\<And>v s. m = Inr (Ok v, s) \<Longrightarrow> P"
  shows P
proof (cases m)
  case (Inl f)
  then show ?thesis by (rule assms(1))
next
  case (Inr b)
  obtain r s where b: "b = (r, s)" by (cases b)
  from Inr b assms(2,3) show ?thesis by (cases r) auto
qed

lemma exc_of_res_Inr:
  "exc_of_res m = Inr (Inr v, s) \<longleftrightarrow> m = Inr (Ok v, s)"
  "exc_of_res m = Inr (Inl e, s) \<longleftrightarrow> m = Inr (Err e, s)"
  by (cases m rule: res_cases; simp)+

lemma exc_expression_eq_dom:
  "exc_inner_expression_exc_expression_dom (Inl s) \<Longrightarrow>
     exc_inner_expression s = exc_of_res (res_inner_expression s)"
  "exc_inner_expression_exc_expression_dom (Inr s) \<Longrightarrow>
     exc_expression s = exc_of_res (res_expression s)"
proof (induction rule: exc_inner_expression_exc_expression.pinduct)
  case (1 s)
  note unf = exc_inner_expression.psimps [OF "1.hyps"] res_inner_expression.simps [of s]
  show ?case
  proof (cases "res_operation s")
    case (Inl f)
    then show ?thesis by (simp add: unf exc_operation_eq)
  next
    case (Inr b)
    obtain op s1 where b: "b = (op, s1)" by (cases b)
    show ?thesis
    proof (cases op)
      case (Err e)
      with Inr b show ?thesis by (simp add: unf exc_operation_eq)
    next
      case (Ok op_ok)
      with Inr b have op: "exc_operation s = Inr (Inr op_ok, s1)" by (simp add: exc_operation_eq)
      note l = "1.IH"(1) [OF op]
      show ?thesis
      proof (cases "res_expression s1")
        case (Inl f)
        with Inr b Ok l show ?thesis by (simp add: unf exc_operation_eq)
      next
        case lr: (Inr b2)
        obtain left s2 where b2: "b2 = (left, s2)" by (cases b2)
        show ?thesis
        proof (cases left)
          case (Err e)
          with Inr b Ok l lr b2 show ?thesis by (simp add: unf exc_operation_eq)
        next
          case lok: (Ok left_ok)
          with l lr b2 have "exc_expression s1 = Inr (Inr left_ok, s2)" by simp
          note r = "1.IH"(2) [OF op this]
          show ?thesis
          proof (cases "res_expression s2")
            case (Inl f)
            with Inr b Ok l lr b2 lok r show ?thesis by (simp add: unf exc_operation_eq)
          next
            case rr: (Inr b3)
            obtain right s3 where b3: "b3 = (right, s3)" by (cases b3)
            show ?thesis
            proof (cases right)
              case (Err e)
              with Inr b Ok l lr b2 lok r rr b3 show ?thesis by (simp add: unf exc_operation_eq)
            next
              case rok: (Ok right_ok)
              with Inr b Ok l lr b2 lok r rr b3 show ?thesis
                by (cases op_ok; cases "int64_div left_ok right_ok") (simp_all add: unf exc_operation_eq)
            qed
          qed
        qed
      qed
    qed
  qed
next
  case (2 s)
  note unf = exc_expression.psimps [OF "2.hyps"] res_expression.simps [of s]
    exc_skip_whitespace_eq exc_peek_eq exc_get_char_eq exc_expect_char_eq
  show ?case
  proof (cases "res_skip_whitespace s")
    case (Inl f)
    then show ?thesis by (simp add: unf)
  next
    case ws: (Inr s1)
    then have ws': "exc_skip_whitespace s = Inr (Inr (), s1)" by (simp add: exc_skip_whitespace_eq)
    show ?thesis
    proof (cases "res_peek s1")
      case (Inl f)
      with ws show ?thesis by (simp add: unf)
    next
      case pk: (Inr c)
      then have pk': "exc_peek s1 = Inr c" by (simp add: exc_peek_eq)
      consider (paren) "c = CHR ''(''" | (num) "c \<noteq> CHR ''(''" "CHR ''0'' \<le> c \<and> c \<le> CHR ''9''"
        | (inner) "c \<noteq> CHR ''(''" "\<not> (CHR ''0'' \<le> c \<and> c \<le> CHR ''9'')" by blast
      then show ?thesis
      proof cases
        case num
        with ws pk show ?thesis by (simp add: unf exc_number_eq)
      next
        case inner
        from "2.IH"(2) [OF ws' pk' inner] ws pk inner(1) show ?thesis by (simp add: unf inner(2))
      next
        case paren
        from pk paren have inside: "p s1 \<noteq> endp s1" by (auto dest!: res_peek_Inr)
        show ?thesis
        proof (cases "res_get_char s1" rule: res_cases)
          case (Fault f)
          with ws pk paren show ?thesis by (simp add: unf)
        next
          case (Error e s2)
          with inside show ?thesis by (auto dest!: res_get_char_Inr)
        next
          case gc: (Value ch s2)
          then have gc': "exc_get_char s1 = Inr (Inr ch, s2)" by (simp add: exc_get_char_eq)
          show ?thesis
          proof (cases "res_skip_whitespace s2")
            case (Inl f)
            with ws pk paren gc show ?thesis by (simp add: unf)
          next
            case ws2: (Inr s3)
            then have ws2': "exc_skip_whitespace s2 = Inr (Inr (), s3)"
              by (simp add: exc_skip_whitespace_eq)
            note e = "2.IH"(1) [OF ws' pk' paren gc' ws2']
            show ?thesis
            proof (cases "res_expression s3" rule: res_cases)
              case (Fault f)
              with ws pk paren gc ws2 e show ?thesis by (simp add: unf)
            next
              case (Error e s4)
              with ws pk paren gc ws2 e show ?thesis by (simp add: unf)
            next
              case v: (Value val s4)
              show ?thesis
              proof (cases "res_skip_whitespace s4")
                case (Inl f)
                with ws pk paren gc ws2 e v show ?thesis by (simp add: unf)
              next
                case ws5: (Inr s5)
                with ws pk paren gc ws2 e v show ?thesis
                  by (cases "res_expect_char (CHR '')'') s5" rule: res_cases) (simp_all add: unf)
              qed
            qed
          qed
        qed
      qed
    qed
  qed
qed

lemma exc_expression_forward_dom:
  "exc_inner_expression_exc_expression_dom (Inr s) \<Longrightarrow> exc_expression s = Inr (r, s')
     \<Longrightarrow> forward s s'"
proof -
  assume "exc_inner_expression_exc_expression_dom (Inr s)"
  then have eq: "exc_expression s = exc_of_res (res_expression s)" by (rule exc_expression_eq_dom)
  assume "exc_expression s = Inr (r, s')"
  with eq show "forward s s'"
    by (cases "res_expression s" rule: res_cases) (auto dest: res_expression_forward)
qed

lemma exc_operation_Inr:
  "exc_operation s = Inr (Inr op, s') \<Longrightarrow> s' = s\<lparr>p := p s + 1\<rparr> \<and> p s < length (program s)"
  using res_operation_Ok [of s op s'] by (simp add: exc_operation_eq exc_of_res_Inr)

lemma exc_skip_whitespace_forward: "exc_skip_whitespace s = Inr (r, s') \<Longrightarrow> forward s s'"
  by (auto simp: exc_skip_whitespace_eq ub_bind_Inr_iff dest: res_skip_whitespace_forward)

lemma exc_get_char_paren:
  "exc_peek s = Inr (CHR ''('') \<Longrightarrow> exc_get_char s = Inr (x, s') \<Longrightarrow>
     s' = s\<lparr>p := p s + 1\<rparr> \<and> p s < length (program s)"
  by (auto dest!: exc_peek_Inr exc_get_char_Inr)

lemma exc_expression_total: "exc_inner_expression_exc_expression_dom x"
proof (induction x rule: measure_induct_rule
    [where f = "\<lambda>x. case x of Inl s \<Rightarrow> 2 * (length (program s) - p s)
                          | Inr s \<Rightarrow> 2 * (length (program s) - p s) + 1"])
  case (less x)
  show ?case
  proof (cases x)
    case (Inl s)
    show ?thesis
      unfolding Inl
    proof (rule exc_inner_expression_exc_expression.domintros(1))
      fix s1 op
      assume op: "exc_operation s = Inr (Inr op, s1)"
      with Inl show "exc_inner_expression_exc_expression_dom (Inr s1)"
        by (intro less.IH) (auto dest!: exc_operation_Inr)
    next
      fix s1 op s2 left
      assume op: "exc_operation s = Inr (Inr op, s1)"
        and l: "exc_expression s1 = Inr (Inr left, s2)"
      from op Inl have "exc_inner_expression_exc_expression_dom (Inr s1)"
        by (intro less.IH) (auto dest!: exc_operation_Inr)
      from this l have "forward s1 s2" by (rule exc_expression_forward_dom)
      from forward_remaining [OF this] op Inl
      show "exc_inner_expression_exc_expression_dom (Inr s2)"
        by (intro less.IH) (auto dest!: exc_operation_Inr)
    qed
  next
    case (Inr s)
    show ?thesis
      unfolding Inr
    proof (rule exc_inner_expression_exc_expression.domintros(2))
      fix s1 paren s2 s3
      assume ws: "exc_skip_whitespace s = Inr (Inr (), s1)" and pk: "exc_peek s1 = Inr (CHR ''('')"
        and gc: "exc_get_char s1 = Inr (Inr paren, s2)"
        and ws2: "exc_skip_whitespace s2 = Inr (Inr (), s3)"
      from ws ws2 have "forward s s1" "forward s2 s3" by (auto dest: exc_skip_whitespace_forward)
      from this [THEN forward_remaining] pk gc Inr
      show "exc_inner_expression_exc_expression_dom (Inr s3)"
        by (intro less.IH) (auto dest!: exc_get_char_paren)
    next
      fix s1 c
      assume ws: "exc_skip_whitespace s = Inr (Inr (), s1)"
      then have "forward s s1" by (rule exc_skip_whitespace_forward)
      from forward_remaining [OF this] Inr
      show "exc_inner_expression_exc_expression_dom (Inl s1)"
        by (intro less.IH) simp
    next
      fix s1 c
      assume ws: "exc_skip_whitespace s = Inr (Inr (), s1)"
      then have "forward s s1" by (rule exc_skip_whitespace_forward)
      from forward_remaining [OF this] Inr
      show "exc_inner_expression_exc_expression_dom (Inl s1)"
        by (intro less.IH) simp
    qed
  qed
qed

termination exc_inner_expression
  by (simp add: exc_expression_total)

declare exc_inner_expression.simps [simp del] exc_expression.simps [simp del]

text \<open>\<^verbatim>\<open>int64_t execute(const std::string& program) const\<close>: \<^verbatim>\<open>try\<close> and \<^verbatim>\<open>catch\<close>.\<close>

definition exc_execute :: "string \<Rightarrow> fault + int64" where
  "exc_execute prog =
     ub_bind (exc_expression (Parser prog)) (\<lambda>(result, s).
       case result of
         Inl err \<Rightarrow> Inr 0
       | Inr v \<Rightarrow> Inr v)"

lemma exc_expression_eq: "exc_expression s = exc_of_res (res_expression s)"
  using exc_expression_eq_dom(2) [of s] exc_expression_total by blast

lemma exc_inner_expression_eq: "exc_inner_expression s = exc_of_res (res_inner_expression s)"
  using exc_expression_eq_dom(1) [of s] exc_expression_total by blast

lemma exc_execute_eq: "exc_execute prog = res_execute prog"
  by (cases "res_expression (Parser prog)" rule: res_cases)
     (simp_all add: exc_execute_def res_execute_def exc_expression_eq)

section \<open>Notions used in the statements\<close>

text \<open>
  A cursor is in order when \<^verbatim>\<open>p\<close> is not beyond \<^verbatim>\<open>end\<close> and \<^verbatim>\<open>end\<close> is not beyond the
  program's bytes, as \<open>Parser\<close> sets it up. The input still to be read is the bytes from
  \<^verbatim>\<open>p\<close> up to \<^verbatim>\<open>end\<close>; \<open>advance n\<close> is \<^verbatim>\<open>p += n\<close>.
\<close>

definition cursor_ok :: "parser \<Rightarrow> bool" where
  "cursor_ok s = (p s \<le> endp s \<and> endp s \<le> length (program s))"

definition remaining :: "parser \<Rightarrow> string" where
  "remaining s = drop (p s) (take (endp s) (program s))"

definition advance :: "nat \<Rightarrow> parser \<Rightarrow> parser" where
  "advance n s = s\<lparr>p := p s + n\<rparr>"

text \<open>
  The fold \<^verbatim>\<open>result = result * 10 + digit\<close> over a run of characters, in \<open>int64\<close>; and the
  natural number a run of decimal digits denotes.
\<close>

definition digits_value :: "int64 \<Rightarrow> string \<Rightarrow> int64" where
  "digits_value acc ds = foldl (\<lambda>result c. result * 10 + digit_value c) acc ds"

definition decimal :: "string \<Rightarrow> nat" where
  "decimal ds = foldl (\<lambda>n c. n * 10 + (of_char c - of_char (CHR ''0''))) 0 ds"

text \<open>
  The operator a character stands for; and where the cursor stands when a parse has failed
  with a given kind: at the end of the input, or just behind a character that is no operator,
  or just behind a character that is not the closing parenthesis.
\<close>

definition operator :: "char \<Rightarrow> Op option" where
  "operator c =
     (if c = CHR ''+'' then Some Add
      else if c = CHR ''-'' then Some Sub
      else if c = CHR ''*'' then Some Mul
      else if c = CHR ''/'' then Some Div
      else None)"

fun failure_site :: "ErrorKind \<Rightarrow> parser \<Rightarrow> bool" where
  "failure_site UnexpectedEOF s' = (p s' = endp s')"
| "failure_site InvalidOperator s' = (0 < p s' \<and> operator (program s' ! (p s' - 1)) = None)"
| "failure_site InvalidCharacter s' = (0 < p s' \<and> program s' ! (p s' - 1) \<noteq> CHR '')'')"

text \<open>
  An outcome keeps the cursor when it is no read outside the program's bytes and the parser
  it leaves has the same bytes and the same \<^verbatim>\<open>end\<close>, and its \<^verbatim>\<open>p\<close> not before where it was
  and not beyond \<^verbatim>\<open>end\<close>.
\<close>

definition keeps_cursor :: "parser \<Rightarrow> fault + ('a \<times> parser) \<Rightarrow> bool" where
  "keeps_cursor s out =
     (case out of
        Inl f \<Rightarrow> f \<noteq> OutOfBounds
      | Inr (r, s') \<Rightarrow>
          program s' = program s \<and> endp s' = endp s \<and> p s \<le> p s' \<and> p s' \<le> endp s')"

text \<open>
  The grammar, written after the spec (section 4.1) and not after the code:
  \<^verbatim>\<open>expression := '(' expression ')' | digit+ | operator expression expression\<close>, with
  whitespace skipped before each token. A number is a run of decimal digits that no digit
  follows. \<open>derives inp e rest\<close>: the input \<open>inp\<close> begins with the expression \<open>e\<close>, and
  \<open>rest\<close> is what follows it.
\<close>

datatype expr = Number string | Parens expr | Apply Op expr expr

inductive derives :: "string \<Rightarrow> expr \<Rightarrow> string \<Rightarrow> bool" where
  number:
    "list_all iswspace ws \<Longrightarrow> ds \<noteq> [] \<Longrightarrow> list_all isdigit ds \<Longrightarrow>
     rest = [] \<or> \<not> isdigit (hd rest) \<Longrightarrow>
     derives (ws @ ds @ rest) (Number ds) rest"
| parens:
    "list_all iswspace ws \<Longrightarrow> derives inner e (ws' @ CHR '')'' # rest) \<Longrightarrow>
     list_all iswspace ws' \<Longrightarrow>
     derives (ws @ CHR ''('' # inner) (Parens e) rest"
| operation:
    "list_all iswspace ws \<Longrightarrow> operator c = Some op \<Longrightarrow>
     derives s1 left s2 \<Longrightarrow> derives s2 right s3 \<Longrightarrow>
     derives (ws @ c # s1) (Apply op left right) s3"

text \<open>
  The value of an expression in the integers, again after the spec: operands first, the
  quotient truncated towards zero and undefined for the divisor zero. And the expressions
  all of whose values, from the numbers up, are defined and lie in the range of \<open>int64\<close>.
\<close>

fun value_of :: "expr \<Rightarrow> int option" where
  "value_of (Number ds) = Some (int (decimal ds))"
| "value_of (Parens e) = value_of e"
| "value_of (Apply op left right) =
     (case value_of left of
        None \<Rightarrow> None
      | Some a \<Rightarrow>
          (case value_of right of
             None \<Rightarrow> None
           | Some b \<Rightarrow>
               (case op of
                  Add \<Rightarrow> Some (a + b)
                | Sub \<Rightarrow> Some (a - b)
                | Mul \<Rightarrow> Some (a * b)
                | Div \<Rightarrow> if b = 0 then None else Some (a sdiv b))))"

definition in_int64 :: "int \<Rightarrow> bool" where
  "in_int64 v = (- (2 ^ 63) \<le> v \<and> v < 2 ^ 63)"

fun representable :: "expr \<Rightarrow> bool" where
  "representable (Number ds) = in_int64 (int (decimal ds))"
| "representable (Parens e) = representable e"
| "representable (Apply op left right) =
     (representable left \<and> representable right \<and>
      (case value_of (Apply op left right) of None \<Rightarrow> False | Some v \<Rightarrow> in_int64 v))"

section \<open>Auxiliary facts\<close>

lemma cursor_ok_Parser [simp]: "cursor_ok (Parser prog)"
  by (simp add: cursor_ok_def Parser_def)

lemma remaining_Parser [simp]: "remaining (Parser prog) = prog"
  by (simp add: remaining_def Parser_def)

lemma advance_0 [simp]: "advance 0 s = s"
  by (simp add: advance_def)

lemma advance_advance [simp]: "advance m (advance n s) = advance (n + m) s"
  by (simp add: advance_def add.assoc)

lemma advance_sel [simp]:
  "program (advance n s) = program s" "endp (advance n s) = endp s" "p (advance n s) = p s + n"
  by (simp_all add: advance_def)

lemma length_remaining: "cursor_ok s \<Longrightarrow> length (remaining s) = endp s - p s"
  by (auto simp: cursor_ok_def remaining_def)

lemma remaining_Nil: "cursor_ok s \<Longrightarrow> remaining s = [] \<longleftrightarrow> p s = endp s"
  by (auto simp: cursor_ok_def remaining_def)

lemma remaining_advance:
  "cursor_ok s \<Longrightarrow> n \<le> length (remaining s) \<Longrightarrow>
     remaining (advance n s) = drop n (remaining s) \<and> cursor_ok (advance n s)"
  by (auto simp: cursor_ok_def remaining_def add.commute)

lemma remaining_Cons:
  "cursor_ok s \<Longrightarrow> remaining s = c # cs \<Longrightarrow>
     p s < endp s \<and> p s < length (program s) \<and> program s ! p s = c \<and>
     remaining (advance 1 s) = cs \<and> cursor_ok (advance 1 s)"
proof -
  assume ok: "cursor_ok s" and r: "remaining s = c # cs"
  from ok r have lt: "p s < endp s" using remaining_Nil [of s] by (auto simp: cursor_ok_def)
  with ok have "remaining s ! 0 = program s ! p s"
    by (simp add: remaining_def cursor_ok_def)
  with r have "program s ! p s = c" by simp
  moreover from ok r remaining_advance [of s 1] have "remaining (advance 1 s) = cs \<and> cursor_ok (advance 1 s)"
    by simp
  ultimately show ?thesis using lt ok by (simp add: cursor_ok_def)
qed

lemma res_peek_remaining:
  "cursor_ok s \<Longrightarrow> res_peek s = Inr (case remaining s of [] \<Rightarrow> CHR 0x00 | c # cs \<Rightarrow> c)"
proof (cases "remaining s")
  case Nil
  moreover assume "cursor_ok s"
  ultimately show ?thesis using remaining_Nil [of s] by (simp add: res_peek_def)
next
  case (Cons c cs)
  moreover assume "cursor_ok s"
  ultimately show ?thesis using remaining_Cons [of s c cs] by (simp add: res_peek_def deref_def)
qed

lemma res_get_char_remaining:
  "cursor_ok s \<Longrightarrow>
     res_get_char s =
       Inr (case remaining s of [] \<Rightarrow> (Err UnexpectedEOF, s) | c # cs \<Rightarrow> (Ok c, advance 1 s))"
proof (cases "remaining s")
  case Nil
  moreover assume "cursor_ok s"
  ultimately show ?thesis using remaining_Nil [of s] by (simp add: res_get_char_def)
next
  case (Cons c cs)
  moreover assume "cursor_ok s"
  ultimately show ?thesis using remaining_Cons [of s c cs]
    by (simp add: res_get_char_def deref_def advance_def)
qed

lemma not_iswspace_0 [simp]: "\<not> iswspace (CHR 0x00)" "\<not> isdigit (CHR 0x00)"
  by (simp_all add: iswspace_def isdigit_def)

lemma res_skip_whitespace_remaining:
  "cursor_ok s \<Longrightarrow>
     res_skip_whitespace s = Inr (advance (length (takeWhile iswspace (remaining s))) s)"
proof (induction "remaining s" arbitrary: s)
  case Nil
  then show ?case
    by (simp add: res_skip_whitespace.simps [of s] res_peek_remaining flip: Nil.hyps)
next
  case (Cons c cs)
  note r = Cons.hyps(2) [symmetric]
  from remaining_Cons [OF Cons.prems r]
  have r1: "cs = remaining (advance 1 s)" and ok1: "cursor_ok (advance 1 s)" by simp_all
  from Cons.hyps(1) [OF r1 ok1] Cons.prems r r1 show ?case
    by (simp add: res_skip_whitespace.simps [of s] res_peek_remaining res_get_char_remaining)
qed

lemma res_number_loop_remaining:
  "cursor_ok s \<Longrightarrow>
     res_number_loop acc s =
       Inr (Ok (digits_value acc (takeWhile isdigit (remaining s))),
            advance (length (takeWhile isdigit (remaining s))) s)"
proof (induction "remaining s" arbitrary: s acc)
  case Nil
  then show ?case
    by (simp add: res_number_loop.simps [of acc s] res_peek_remaining digits_value_def flip: Nil.hyps)
next
  case (Cons c cs)
  note r = Cons.hyps(2) [symmetric]
  from remaining_Cons [OF Cons.prems r]
  have r1: "cs = remaining (advance 1 s)" and ok1: "cursor_ok (advance 1 s)" by simp_all
  from Cons.hyps(1) [OF r1 ok1] Cons.prems r r1 show ?case
    by (simp add: res_number_loop.simps [of acc s] res_peek_remaining res_get_char_remaining
        digits_value_def)
qed

lemma isdigit_iff: "isdigit c \<longleftrightarrow> 48 \<le> (of_char c :: nat) \<and> (of_char c :: nat) \<le> 57"
  by (simp add: isdigit_def less_eq_char_def)

lemma digit_value_of_nat: "isdigit c \<Longrightarrow> digit_value c = of_nat (of_char c - of_char (CHR ''0''))"
  by (simp add: digit_value_def isdigit_iff)

lemma digits_value_of_nat:
  "list_all isdigit ds \<Longrightarrow>
     digits_value (of_nat a) ds =
       of_nat (foldl (\<lambda>n c. n * 10 + (of_char c - of_char (CHR ''0''))) a ds)"
proof (induction ds arbitrary: a)
  case Nil
  then show ?case by (simp add: digits_value_def)
next
  case (Cons c ds)
  from Cons.prems have c: "isdigit c" and ds: "list_all isdigit ds" by simp_all
  have "digits_value (of_nat a) (c # ds) = digits_value (of_nat (a * 10 + (of_char c - of_char (CHR ''0'')))) ds"
    by (simp add: digits_value_def digit_value_of_nat [OF c])
  also note Cons.IH [OF ds]
  finally show ?case by simp
qed

lemma digits_value_decimal:
  "list_all isdigit ds \<Longrightarrow> digits_value 0 ds = of_nat (decimal ds)"
  using digits_value_of_nat [of ds 0] by (simp add: decimal_def)

lemma list_all_takeWhile [simp]: "list_all P (takeWhile P xs)"
  by (induction xs) auto

text \<open>What a call of either rule of the grammar guarantees, from a cursor in order.\<close>

definition res_post :: "parser \<Rightarrow> fault + (int64 Result \<times> parser) \<Rightarrow> bool" where
  "res_post s out =
     (case out of
        Inl f \<Rightarrow> f = DivideError
      | Inr (r, s') \<Rightarrow>
          forward s s' \<and>
          (p s < p s' \<or> r = Err UnexpectedEOF \<and> s' = s \<and> p s = endp s) \<and>
          (case r of Ok v \<Rightarrow> True | Err e \<Rightarrow> failure_site e s'))"

lemma res_operation_remaining:
  "cursor_ok s \<Longrightarrow>
     res_operation s =
       Inr (case remaining s of
              [] \<Rightarrow> (Err UnexpectedEOF, s)
            | c # cs \<Rightarrow> (case operator c of Some op \<Rightarrow> Ok op | None \<Rightarrow> Err InvalidOperator,
                        advance 1 s))"
  by (cases "remaining s")
     (simp_all add: res_operation_def res_get_char_remaining operator_def)

lemma res_expect_char_remaining:
  "cursor_ok s \<Longrightarrow>
     res_expect_char c s =
       Inr (case remaining s of
              [] \<Rightarrow> (Err UnexpectedEOF, s)
            | x # xs \<Rightarrow> (if x \<noteq> c then Err InvalidCharacter else Ok x, advance 1 s))"
  by (cases "remaining s")
     (simp_all add: res_expect_char_def res_get_char_remaining)

lemma forward_advance: "cursor_ok s \<Longrightarrow> n \<le> length (remaining s) \<Longrightarrow> forward s (advance n s)"
  by (auto simp: forward_def length_remaining cursor_ok_def)

lemma forward_cursor_ok: "forward s s' \<Longrightarrow> cursor_ok s \<Longrightarrow> cursor_ok s'"
  by (auto simp: forward_def cursor_ok_def)

lemma res_post_step:
  "forward s s1 \<Longrightarrow> p s < p s1 \<Longrightarrow> res_post s1 (Inr (r, s')) \<Longrightarrow> res_post s (Inr (r, s'))"
  by (auto simp: res_post_def forward_def)

lemma res_post_skip:
  "forward s s1 \<Longrightarrow> p s1 = p s \<longrightarrow> s1 = s \<Longrightarrow> res_post s1 out \<Longrightarrow> res_post s out"
  by (cases out) (auto simp: res_post_def forward_def)


lemma res_post_Ok: "res_post s (Inr (Ok v, s')) \<Longrightarrow> res_post s (Inr (Ok w, s'))"
  by (simp add: res_post_def)

lemma res_post_forward: "res_post s (Inr (r, s')) \<Longrightarrow> forward s s'"
  by (simp add: res_post_def)

lemma res_post_Inl: "res_post s (Inl f) \<longleftrightarrow> f = DivideError"
  by (simp add: res_post_def)

lemma int64_div_Inl: "int64_div a b = Inl f \<Longrightarrow> f = DivideError"
  by (auto simp: int64_div_def split: if_splits)

lemma forward_p: "forward s s' \<Longrightarrow> p s \<le> p s'"
  by (simp add: forward_def)

lemma res_inner_expression_post_aux:
  assumes ok: "cursor_ok s"
    and IH1: "\<And>op s1. res_operation s = Inr (Ok op, s1) \<Longrightarrow> cursor_ok s1 \<Longrightarrow>
                res_post s1 (res_expression s1)"
    and IH2: "\<And>op s1 left s2. res_operation s = Inr (Ok op, s1) \<Longrightarrow>
                res_expression s1 = Inr (Ok left, s2) \<Longrightarrow> cursor_ok s2 \<Longrightarrow>
                res_post s2 (res_expression s2)"
  shows "res_post s (res_inner_expression s)"
proof (cases "remaining s")
  case Nil
  with ok have "res_operation s = Inr (Err UnexpectedEOF, s)"
    by (simp add: res_operation_remaining)
  with ok Nil show ?thesis
    by (simp add: res_inner_expression.simps [of s] res_post_def remaining_Nil)
next
  case (Cons c cs)
  let ?s1 = "advance 1 s"
  note unf = res_inner_expression.simps [of s]
  from remaining_Cons [OF ok Cons]
  have ok1: "cursor_ok ?s1" and c: "program s ! p s = c" and lt: "p s < endp s" by simp_all
  from ok Cons have f1: "forward s ?s1" by (intro forward_advance) simp_all
  have lt1: "p s < p ?s1" by simp
  show ?thesis
  proof (cases "operator c")
    case None
    with ok Cons have "res_operation s = Inr (Err InvalidOperator, ?s1)"
      by (simp add: res_operation_remaining)
    with f1 c None show ?thesis by (simp add: unf res_post_def)
  next
    case (Some op)
    with ok Cons have op: "res_operation s = Inr (Ok op, ?s1)"
      by (simp add: res_operation_remaining)
    note post1 = IH1 [OF op ok1]
    show ?thesis
    proof (cases "res_expression ?s1" rule: res_cases)
      case (Fault f)
      with post1 op show ?thesis by (simp add: unf res_post_def)
    next
      case (Error e s2)
      with post1 have "res_post ?s1 (Inr (Err e, s2))" by simp
      from res_post_step [OF f1 lt1 this] op Error show ?thesis by (simp add: unf)
    next
      case l: (Value left s2)
      with post1 have p1: "res_post ?s1 (Inr (Ok left, s2))" by simp
      note f2 = res_post_forward [OF p1]
      from f2 ok1 have ok2: "cursor_ok s2" by (rule forward_cursor_ok)
      from f1 f2 have f02: "forward s s2" by (rule forward_trans)
      from forward_p [OF f2] have lt2: "p s < p s2" by simp
      note post2 = IH2 [OF op l ok2]
      show ?thesis
      proof (cases "res_expression s2" rule: res_cases)
        case (Fault f)
        with post2 op l show ?thesis by (simp add: unf res_post_def)
      next
        case (Error e s3)
        with post2 have "res_post s2 (Inr (Err e, s3))" by simp
        from res_post_step [OF f02 lt2 this] op l Error show ?thesis by (simp add: unf)
      next
        case r: (Value right s3)
        with post2 have "res_post s2 (Inr (Ok right, s3))" by simp
        from res_post_step [OF f02 lt2 this]
        have fin: "\<And>v. res_post s (Inr (Ok v, s3))" by (rule res_post_Ok)
        show ?thesis
        proof (cases op)
          case Div
          show ?thesis
          proof (cases "int64_div left right")
            case (Inl f)
            with op l r Div int64_div_Inl [OF Inl] show ?thesis by (simp add: unf res_post_def)
          next
            case (Inr q)
            with op l r Div fin [of q] show ?thesis by (simp add: unf)
          qed
        qed (use op l r fin in \<open>simp_all add: unf\<close>)
      qed
    qed
  qed
qed


lemma res_number_post: "cursor_ok s \<Longrightarrow> isdigit (hd (remaining s)) \<Longrightarrow> remaining s \<noteq> []
  \<Longrightarrow> res_post s (res_number s)"
proof -
  assume ok: "cursor_ok s" and d: "isdigit (hd (remaining s))" and ne: "remaining s \<noteq> []"
  let ?ds = "takeWhile isdigit (remaining s)"
  from d ne have "?ds \<noteq> []" by (cases "remaining s") simp_all
  then have pos: "0 < length ?ds" by simp
  have "length ?ds \<le> length (remaining s)" by (rule length_takeWhile_le)
  from forward_advance [OF ok this] pos res_number_loop_remaining [OF ok, of 0]
  show ?thesis by (simp add: res_post_def res_number_def)
qed

lemma res_expression_post_aux:
  assumes ok: "cursor_ok s"
    and IH1: "\<And>s1 x s2 s3. res_skip_whitespace s = Inr s1 \<Longrightarrow> res_peek s1 = Inr (CHR ''('') \<Longrightarrow>
                res_get_char s1 = Inr (x, s2) \<Longrightarrow> res_skip_whitespace s2 = Inr s3 \<Longrightarrow>
                cursor_ok s3 \<Longrightarrow> res_post s3 (res_expression s3)"
    and IH2: "\<And>s1 c. res_skip_whitespace s = Inr s1 \<Longrightarrow> res_peek s1 = Inr c \<Longrightarrow>
                c \<noteq> CHR ''('' \<Longrightarrow> \<not> (CHR ''0'' \<le> c \<and> c \<le> CHR ''9'') \<Longrightarrow> cursor_ok s1 \<Longrightarrow>
                res_post s1 (res_inner_expression s1)"
  shows "res_post s (res_expression s)"
proof -
  let ?n = "length (takeWhile iswspace (remaining s))"
  let ?s1 = "advance ?n s"
  note unf = res_expression.simps [of s]
  have n: "?n \<le> length (remaining s)" by (rule length_takeWhile_le)
  from ok have ws: "res_skip_whitespace s = Inr ?s1" by (rule res_skip_whitespace_remaining)
  from remaining_advance [OF ok n] have ok1: "cursor_ok ?s1" by simp
  from forward_advance [OF ok n] have f1: "forward s ?s1" .
  have same: "p ?s1 = p s \<longrightarrow> ?s1 = s" by (simp add: advance_def)
  obtain c where pk: "res_peek ?s1 = Inr c"
    and c: "c = (case remaining ?s1 of [] \<Rightarrow> CHR 0x00 | x # xs \<Rightarrow> x)"
    using res_peek_remaining [OF ok1] by blast
  consider (paren) "c = CHR ''(''" | (num) "c \<noteq> CHR ''(''" "CHR ''0'' \<le> c \<and> c \<le> CHR ''9''"
    | (inner) "c \<noteq> CHR ''(''" "\<not> (CHR ''0'' \<le> c \<and> c \<le> CHR ''9'')" by blast
  then show ?thesis
  proof cases
    case num
    with c have "remaining ?s1 \<noteq> []" "isdigit (hd (remaining ?s1))"
      by (auto simp: isdigit_def split: list.splits)
    with ok1 have "res_post ?s1 (res_number ?s1)" by (intro res_number_post)
    from res_post_skip [OF f1 same this] ws pk num show ?thesis by (simp add: unf)
  next
    case inner
    from IH2 [OF ws pk inner ok1] have "res_post ?s1 (res_inner_expression ?s1)" .
    from res_post_skip [OF f1 same this] ws pk inner(1) show ?thesis by (simp add: unf inner(2))
  next
    case paren
    with c obtain cs where r1: "remaining ?s1 = CHR ''('' # cs" by (auto split: list.splits)
    let ?s2 = "advance 1 ?s1"
    from ok1 r1 have gc: "res_get_char ?s1 = Inr (Ok (CHR ''(''), ?s2)"
      by (simp add: res_get_char_remaining)
    from remaining_Cons [OF ok1 r1] have ok2: "cursor_ok ?s2" by simp
    from ok1 r1 have f2: "forward ?s1 ?s2" by (intro forward_advance) simp_all
    let ?m = "length (takeWhile iswspace (remaining ?s2))"
    let ?s3 = "advance ?m ?s2"
    have m: "?m \<le> length (remaining ?s2)" by (rule length_takeWhile_le)
    from ok2 have ws2: "res_skip_whitespace ?s2 = Inr ?s3" by (rule res_skip_whitespace_remaining)
    from remaining_advance [OF ok2 m] have ok3: "cursor_ok ?s3" by simp
    from forward_advance [OF ok2 m] have f3: "forward ?s2 ?s3" .
    from f1 f2 f3 have f03: "forward s ?s3" by (blast intro: forward_trans)
    have lt3: "p s < p ?s3" by simp
    note post3 = IH1 [OF ws pk [unfolded paren] gc ws2 ok3]
    note pre = ws pk paren gc ws2
    show ?thesis
    proof (cases "res_expression ?s3" rule: res_cases)
      case (Fault f)
      with post3 pre show ?thesis by (simp add: unf res_post_def)
    next
      case (Error e s4)
      with post3 have "res_post ?s3 (Inr (Err e, s4))" by simp
      from res_post_step [OF f03 lt3 this] pre Error show ?thesis by (simp add: unf)
    next
      case v: (Value val s4)
      with post3 have p3: "res_post ?s3 (Inr (Ok val, s4))" by simp
      note f4 = res_post_forward [OF p3]
      from f4 ok3 have ok4: "cursor_ok s4" by (rule forward_cursor_ok)
      let ?k = "length (takeWhile iswspace (remaining s4))"
      let ?s5 = "advance ?k s4"
      have k: "?k \<le> length (remaining s4)" by (rule length_takeWhile_le)
      from ok4 have ws5: "res_skip_whitespace s4 = Inr ?s5" by (rule res_skip_whitespace_remaining)
      from remaining_advance [OF ok4 k] have ok5: "cursor_ok ?s5" by simp
      from forward_advance [OF ok4 k] have f5: "forward s4 ?s5" .
      from f03 f4 f5 have f05: "forward s ?s5" by (blast intro: forward_trans)
      from forward_p [OF f4] forward_p [OF f5] lt3 have lt5: "p s < p ?s5" by simp
      show ?thesis
      proof (cases "remaining ?s5")
        case Nil
        with ok5 have "res_expect_char (CHR '')'') ?s5 = Inr (Err UnexpectedEOF, ?s5)"
          by (simp add: res_expect_char_remaining)
        moreover from ok5 Nil have "p ?s5 = endp ?s5" by (simp add: remaining_Nil)
        ultimately show ?thesis using pre v ws5 f05 lt5 by (simp add: unf res_post_def)
      next
        case (Cons x xs)
        let ?s6 = "advance 1 ?s5"
        from remaining_Cons [OF ok5 Cons] have x: "program ?s5 ! p ?s5 = x" by simp
        from ok5 Cons have f6: "forward ?s5 ?s6" by (intro forward_advance) simp_all
        from f05 f6 have f06: "forward s ?s6" by (rule forward_trans)
        from lt5 have lt6: "p s < p ?s6" by simp
        from ok5 Cons have ex: "res_expect_char (CHR '')'') ?s5 =
            Inr (if x \<noteq> CHR '')'' then Err InvalidCharacter else Ok x, ?s6)"
          by (simp add: res_expect_char_remaining)
        show ?thesis
        proof (cases "x = CHR '')''")
          case True
          with ex pre v ws5 f06 lt6 show ?thesis by (simp add: unf res_post_def)
        next
          case False
          with ex pre v ws5 f06 lt6 x show ?thesis by (simp add: unf res_post_def)
        qed
      qed
    qed
  qed
qed

lemma res_expression_post:
  "cursor_ok s \<Longrightarrow> res_post s (res_inner_expression s)"
  "cursor_ok s \<Longrightarrow> res_post s (res_expression s)"
proof (induction s and s rule: res_inner_expression_res_expression.induct)
  case (1 s)
  from "1.prems" show ?case
  proof (rule res_inner_expression_post_aux)
    fix op s1
    assume "res_operation s = Inr (Ok op, s1)" "cursor_ok s1"
    then show "res_post s1 (res_expression s1)" by (intro "1.IH"(1)) simp_all
  next
    fix op s1 left s2
    assume "res_operation s = Inr (Ok op, s1)" "res_expression s1 = Inr (Ok left, s2)" "cursor_ok s2"
    then show "res_post s2 (res_expression s2)" by (intro "1.IH"(2)) simp_all
  qed
next
  case (2 s)
  from "2.prems" show ?case
  proof (rule res_expression_post_aux)
    fix s1 x s2 s3
    assume "res_skip_whitespace s = Inr s1" "res_peek s1 = Inr (CHR ''('')"
      "res_get_char s1 = Inr (x, s2)" "res_skip_whitespace s2 = Inr s3" "cursor_ok s3"
    then show "res_post s3 (res_expression s3)" by (intro "2.IH"(1)) simp_all
  next
    fix s1 c
    assume "res_skip_whitespace s = Inr s1" "res_peek s1 = Inr c" "c \<noteq> CHR ''(''"
      "\<not> (CHR ''0'' \<le> c \<and> c \<le> CHR ''9'')" "cursor_ok s1"
    then show "res_post s1 (res_inner_expression s1)" by (intro "2.IH"(2)) simp_all
  qed
qed

lemma keeps_cursor_exc_of_res [simp]: "keeps_cursor s (exc_of_res m) = keeps_cursor s m"
  by (cases m rule: res_cases) (simp_all add: keeps_cursor_def)

lemma keeps_cursor_advance:
  "cursor_ok s \<Longrightarrow> n \<le> length (remaining s) \<Longrightarrow> keeps_cursor s (Inr (r, advance n s))"
  by (auto simp: keeps_cursor_def cursor_ok_def length_remaining)

lemma keeps_cursor_same: "cursor_ok s \<Longrightarrow> keeps_cursor s (Inr (r, s))"
  by (simp add: keeps_cursor_def cursor_ok_def)

lemma res_post_keeps_cursor: "cursor_ok s \<Longrightarrow> res_post s out \<Longrightarrow> keeps_cursor s out"
  by (cases out rule: res_cases) (auto simp: res_post_def keeps_cursor_def forward_def cursor_ok_def)

lemma res_get_char_keeps: "cursor_ok s \<Longrightarrow> keeps_cursor s (res_get_char s)"
  by (cases "remaining s")
     (simp_all add: res_get_char_remaining keeps_cursor_advance keeps_cursor_same)

lemma res_expect_char_keeps: "cursor_ok s \<Longrightarrow> keeps_cursor s (res_expect_char c s)"
  by (cases "remaining s")
     (simp_all add: res_expect_char_remaining keeps_cursor_advance keeps_cursor_same)

lemma res_operation_keeps: "cursor_ok s \<Longrightarrow> keeps_cursor s (res_operation s)"
  by (cases "remaining s")
     (simp_all add: res_operation_remaining keeps_cursor_advance keeps_cursor_same)

lemma res_number_keeps: "cursor_ok s \<Longrightarrow> keeps_cursor s (res_number s)"
  by (simp add: res_number_def res_number_loop_remaining keeps_cursor_advance length_takeWhile_le)

lemma res_skip_whitespace_keeps:
  "cursor_ok s \<Longrightarrow> \<exists>s'. res_skip_whitespace s = Inr s' \<and> keeps_cursor s (Inr ((), s'))"
  by (simp add: res_skip_whitespace_remaining keeps_cursor_advance length_takeWhile_le)

lemma res_peek_in_bounds: "cursor_ok s \<Longrightarrow> res_peek s \<noteq> Inl OutOfBounds"
  by (simp add: res_peek_remaining)

lemma at_end:
  "p s = endp s \<Longrightarrow>
     res_peek s = Inr (CHR 0x00) \<and> res_get_char s = Inr (Err UnexpectedEOF, s) \<and>
     exc_peek s = Inr (CHR 0x00) \<and> exc_get_char s = Inr (Inl UnexpectedEOF, s)"
  by (simp add: res_peek_def res_get_char_def exc_peek_def exc_get_char_def)

lemma res_number_loop_no_Err: "res_number_loop acc s \<noteq> Inr (Err e, s')"
proof (induction acc s rule: res_number_loop.induct)
  case (1 result s)
  note unf = res_number_loop.simps [of result s]
  show ?case
  proof (cases "res_peek s")
    case (Inl f)
    then show ?thesis by (simp add: unf)
  next
    case pk: (Inr d)
    show ?thesis
    proof (cases "isdigit d")
      case False
      with pk show ?thesis by (simp add: unf)
    next
      case True
      then have "d \<noteq> CHR 0x00" by auto
      from res_peek_Inr [OF pk this] have inside: "p s \<noteq> endp s" by simp
      show ?thesis
      proof (cases "res_get_char s" rule: res_cases)
        case (Fault f)
        with pk True show ?thesis by (simp add: unf)
      next
        case (Error e1 s1)
        with inside show ?thesis by (auto dest!: res_get_char_Inr)
      next
        case (Value ch s1)
        from "1.IH" [OF pk True Value refl refl] pk True Value show ?thesis by (simp add: unf)
      qed
    qed
  qed
qed

lemma res_peek_digit_get_char:
  "res_peek s = Inr d \<Longrightarrow> isdigit d \<Longrightarrow> res_get_char s = Inr (Ok d, s\<lparr>p := p s + 1\<rparr>)"
proof -
  assume pk: "res_peek s = Inr d" and d: "isdigit d"
  then have "d \<noteq> CHR 0x00" by auto
  from res_peek_Inr [OF pk this] pk show ?thesis
    by (simp add: res_peek_def res_get_char_def)
qed

lemma res_post_progress:
  "res_post s (Inr (r, s')) \<Longrightarrow> p s < p s' \<or> r = Err UnexpectedEOF \<and> s' = s \<and> p s = endp s"
  by (simp add: res_post_def)

lemma res_expression_at_end:
  "p s = endp s \<Longrightarrow>
     res_inner_expression s = Inr (Err UnexpectedEOF, s) \<and>
     res_expression s = Inr (Err UnexpectedEOF, s)"
proof -
  assume e: "p s = endp s"
  then have pk: "res_peek s = Inr (CHR 0x00)" by (simp add: res_peek_def)
  from e have "res_operation s = Inr (Err UnexpectedEOF, s)"
    by (simp add: res_operation_def res_get_char_def)
  then have inner: "res_inner_expression s = Inr (Err UnexpectedEOF, s)"
    by (simp add: res_inner_expression.simps [of s])
  from pk have "res_skip_whitespace s = Inr s"
    by (simp add: res_skip_whitespace.simps [of s])
  with pk inner show ?thesis
    by (simp add: res_expression.simps [of s])
qed

lemma before_call:
  "res_operation s = Inr (Ok op, s1) \<Longrightarrow> length (program s1) - p s1 < length (program s) - p s"
  "res_operation s = Inr (Ok op, s1) \<Longrightarrow> res_expression s1 = Inr (Ok left, s2) \<Longrightarrow>
     length (program s2) - p s2 < length (program s) - p s"
  "res_skip_whitespace s = Inr s1 \<Longrightarrow> res_peek s1 = Inr (CHR ''('') \<Longrightarrow>
     res_get_char s1 = Inr (x, s3) \<Longrightarrow> res_skip_whitespace s3 = Inr s4 \<Longrightarrow>
     length (program s4) - p s4 < length (program s) - p s"
  "res_skip_whitespace s = Inr s1 \<Longrightarrow> length (program s1) - p s1 \<le> length (program s) - p s"
proof -
  show "length (program s1) - p s1 < length (program s) - p s"
    if "res_operation s = Inr (Ok op, s1)"
    using that by (auto dest!: res_operation_Ok)
  show "length (program s2) - p s2 < length (program s) - p s"
    if "res_operation s = Inr (Ok op, s1)" "res_expression s1 = Inr (Ok left, s2)"
    using that forward_remaining [OF res_expression_forward, of s1 "Ok left" s2]
    by (auto dest!: res_operation_Ok)
  show "length (program s1) - p s1 \<le> length (program s) - p s"
    if "res_skip_whitespace s = Inr s1"
    using that by (intro forward_remaining res_skip_whitespace_forward)
  show "length (program s4) - p s4 < length (program s) - p s"
    if "res_skip_whitespace s = Inr s1" "res_peek s1 = Inr (CHR ''('')"
      "res_get_char s1 = Inr (x, s3)" "res_skip_whitespace s3 = Inr s4"
    using that forward_remaining [OF res_skip_whitespace_forward, of s s1]
      forward_remaining [OF res_skip_whitespace_forward, of s3 s4]
    by (auto dest!: res_get_char_paren)
qed

lemma res_post_failure_site:
  "res_post s (Inr (Err e, s')) \<Longrightarrow> failure_site e s' \<and> p s \<le> p s' \<and> (e \<noteq> UnexpectedEOF \<longrightarrow> p s < p s')"
  by (auto simp: res_post_def forward_def)

lemma exc_operation_remaining:
  "cursor_ok s \<Longrightarrow>
     exc_operation s =
       Inr (case remaining s of
              [] \<Rightarrow> (Inl UnexpectedEOF, s)
            | c # cs \<Rightarrow> (case operator c of Some op \<Rightarrow> Inr op | None \<Rightarrow> Inl InvalidOperator,
                        advance 1 s))"
  by (cases "remaining s"; cases "operator (hd (remaining s))")
     (simp_all add: exc_operation_eq res_operation_remaining)

lemma exc_expect_char_remaining:
  "cursor_ok s \<Longrightarrow>
     exc_expect_char c s =
       Inr (case remaining s of
              [] \<Rightarrow> (Inl UnexpectedEOF, s)
            | x # xs \<Rightarrow> (if x \<noteq> c then Inl InvalidCharacter else Inr (), advance 1 s))"
  by (cases "remaining s")
     (simp_all add: exc_expect_char_eq res_expect_char_remaining)

lemma exc_get_char_remaining:
  "cursor_ok s \<Longrightarrow>
     exc_get_char s =
       Inr (case remaining s of [] \<Rightarrow> (Inl UnexpectedEOF, s) | c # cs \<Rightarrow> (Inr c, advance 1 s))"
  by (cases "remaining s") (simp_all add: exc_get_char_eq res_get_char_remaining)

lemma operator_None_iff:
  "operator c = None \<longleftrightarrow> c \<noteq> CHR ''+'' \<and> c \<noteq> CHR ''-'' \<and> c \<noteq> CHR ''*'' \<and> c \<noteq> CHR ''/''"
  by (simp add: operator_def)

lemma res_expect_char_InvalidCharacter:
  "res_expect_char c s = Inr (Err InvalidCharacter, s') \<Longrightarrow>
     p s \<noteq> endp s \<and> p s < length (program s) \<and> program s ! p s \<noteq> c \<and> s' = s\<lparr>p := p s + 1\<rparr>"
proof (cases "res_get_char s" rule: res_cases)
  case (Fault f)
  moreover assume "res_expect_char c s = Inr (Err InvalidCharacter, s')"
  ultimately show ?thesis by (simp add: res_expect_char_def)
next
  case (Error e s1)
  moreover assume "res_expect_char c s = Inr (Err InvalidCharacter, s')"
  ultimately show ?thesis by (auto simp: res_expect_char_def dest!: res_get_char_Inr)
next
  case (Value x s1)
  moreover assume "res_expect_char c s = Inr (Err InvalidCharacter, s')"
  ultimately show ?thesis
    by (auto simp: res_expect_char_def dest!: res_get_char_Inr split: if_splits)
qed

lemma expect_char_at_end:
  "p s = endp s \<Longrightarrow>
     res_expect_char c s = Inr (Err UnexpectedEOF, s) \<and>
     exc_expect_char c s = Inr (Inl UnexpectedEOF, s)"
  by (simp add: res_expect_char_def exc_expect_char_def res_get_char_def exc_get_char_def)

lemma exc_expect_char_InvalidCharacter:
  "exc_expect_char c s = Inr (Inl InvalidCharacter, s') \<Longrightarrow>
     p s \<noteq> endp s \<and> p s < length (program s) \<and> program s ! p s \<noteq> c \<and> s' = s\<lparr>p := p s + 1\<rparr>"
proof -
  assume a: "exc_expect_char c s = Inr (Inl InvalidCharacter, s')"
  then have "res_expect_char c s = Inr (Err InvalidCharacter, s')"
    by (cases "res_expect_char c s" rule: res_cases) (simp_all add: exc_expect_char_eq)
  then show ?thesis by (rule res_expect_char_InvalidCharacter)
qed

text \<open>What the parsers compute on an expression of the grammar.\<close>

fun evaluate :: "expr \<Rightarrow> fault + int64" where
  "evaluate (Number ds) = Inr (digits_value 0 ds)"
| "evaluate (Parens e) = evaluate e"
| "evaluate (Apply op left right) =
     ub_bind (evaluate left) (\<lambda>a.
       ub_bind (evaluate right) (\<lambda>b.
         case op of
           Add \<Rightarrow> Inr (a + b)
         | Sub \<Rightarrow> Inr (a - b)
         | Mul \<Rightarrow> Inr (a * b)
         | Div \<Rightarrow> int64_div a b))"

lemma derives_consumes: "derives inp e rest \<Longrightarrow> \<exists>tok. tok \<noteq> [] \<and> inp = tok @ rest"
proof (induction rule: derives.induct)
  case (number ws ds rest)
  then have "ws @ ds \<noteq> [] \<and> ws @ ds @ rest = (ws @ ds) @ rest" by simp
  then show ?case by blast
next
  case (parens ws inner e ws' rest)
  then obtain tok where "inner = tok @ ws' @ CHR '')'' # rest" by blast
  then have "ws @ CHR ''('' # inner = (ws @ CHR ''('' # tok @ ws' @ [CHR '')'']) @ rest" by simp
  then show ?case by blast
next
  case (operation ws c op s1 left s2 right s3)
  then obtain t1 t2 where "s1 = t1 @ s2" "s2 = t2 @ s3" by blast
  then have "ws @ c # s1 = (ws @ c # t1 @ t2) @ s3" by simp
  then show ?case by blast
qed

lemma takeWhile_prefix:
  "list_all P ws \<Longrightarrow> xs = [] \<or> \<not> P (hd xs) \<Longrightarrow> takeWhile P (ws @ xs) = ws"
  by (cases xs) (auto simp: list_all_iff takeWhile_append)

lemma skip_to:
  assumes "cursor_ok s" and "remaining s = ws @ xs" and "list_all iswspace ws"
    and "xs = [] \<or> \<not> iswspace (hd xs)"
  shows "res_skip_whitespace s = Inr (advance (length ws) s) \<and>
         cursor_ok (advance (length ws) s) \<and> remaining (advance (length ws) s) = xs"
proof -
  from assms have "takeWhile iswspace (remaining s) = ws" by (simp add: takeWhile_prefix)
  with res_skip_whitespace_remaining [OF assms(1)]
  have "res_skip_whitespace s = Inr (advance (length ws) s)" by simp
  moreover from remaining_advance [OF assms(1), of "length ws"] assms(2)
  have "cursor_ok (advance (length ws) s) \<and> remaining (advance (length ws) s) = xs" by simp
  ultimately show ?thesis by simp
qed

lemma operator_Some:
  "operator c = Some op \<Longrightarrow> \<not> iswspace c \<and> \<not> isdigit c \<and> c \<noteq> CHR ''(''"
  by (auto simp: operator_def iswspace_def isdigit_def split: if_splits)

lemma isdigit_not_iswspace: "isdigit c \<Longrightarrow> \<not> iswspace c"
  by (auto simp: isdigit_def iswspace_def less_eq_char_def)

lemma res_expression_after_skip:
  assumes ok: "cursor_ok s" and ws: "res_skip_whitespace s = Inr s'"
  shows "res_expression s' = res_expression s"
proof -
  let ?n = "length (takeWhile iswspace (remaining s))"
  from ok ws have s': "s' = advance ?n s" by (simp add: res_skip_whitespace_remaining)
  have n: "?n \<le> length (remaining s)" by (rule length_takeWhile_le)
  from remaining_advance [OF ok n] s'
  have ok': "cursor_ok s'" and r': "remaining s' = dropWhile iswspace (remaining s)"
    by (simp_all add: dropWhile_eq_drop)
  have "takeWhile iswspace (dropWhile iswspace (remaining s)) = []"
    by (metis dropWhile_eq_Nil_conv hd_dropWhile list.collapse takeWhile.simps takeWhile_eq_Nil_iff)
  with r' res_skip_whitespace_remaining [OF ok'] have "res_skip_whitespace s' = Inr s'" by simp
  with ws show ?thesis
    by (simp add: res_expression.simps [of s] res_expression.simps [of s'])
qed

lemma res_expression_derives:
  "derives inp e rest \<Longrightarrow> cursor_ok s \<Longrightarrow> remaining s = inp \<Longrightarrow>
     res_expression s =
       ub_bind (evaluate e) (\<lambda>v. Inr (Ok v, advance (length inp - length rest) s))"
proof (induction arbitrary: s rule: derives.induct)
  case (number ws ds rest)
  let ?s1 = "advance (length ws) s"
  from number.hyps have d: "isdigit (hd ds)" by (cases ds) simp_all
  then have nws: "\<not> iswspace (hd ds)" by (rule isdigit_not_iswspace)
  with number.hyps have "ds @ rest = [] \<or> \<not> iswspace (hd (ds @ rest))" by simp
  from skip_to [OF number.prems(1) _ number.hyps(1) this] number.prems(2)
  have ws: "res_skip_whitespace s = Inr ?s1" and ok1: "cursor_ok ?s1"
    and r1: "remaining ?s1 = ds @ rest" by simp_all
  from number.hyps r1 have pk: "res_peek ?s1 = Inr (hd ds)"
    by (cases ds) (simp_all add: res_peek_remaining [OF ok1])
  from number.hyps have "takeWhile isdigit (ds @ rest) = ds" by (simp add: takeWhile_prefix)
  with r1 have num: "res_number ?s1 = Inr (Ok (digits_value 0 ds), advance (length ds) ?s1)"
    by (simp add: res_number_def res_number_loop_remaining [OF ok1])
  from d have "hd ds \<noteq> CHR ''(''" "CHR ''0'' \<le> hd ds \<and> hd ds \<le> CHR ''9''"
    by (auto simp: isdigit_def)
  with ws pk num show ?case by (simp add: res_expression.simps [of s])
next
  case (parens ws inner e ws' rest)
  let ?s1 = "advance (length ws) s"
  have "\<not> iswspace (CHR ''('')" by (simp add: iswspace_def)
  then have "CHR ''('' # inner = [] \<or> \<not> iswspace (hd (CHR ''('' # inner))" by simp
  from skip_to [OF parens.prems(1) _ parens.hyps(1) this] parens.prems(2)
  have ws: "res_skip_whitespace s = Inr ?s1" and ok1: "cursor_ok ?s1"
    and r1: "remaining ?s1 = CHR ''('' # inner" by simp_all
  from r1 res_peek_remaining [OF ok1] have pk: "res_peek ?s1 = Inr (CHR ''('')" by simp
  let ?s2 = "advance 1 ?s1"
  from r1 res_get_char_remaining [OF ok1] have gc: "res_get_char ?s1 = Inr (Ok (CHR ''(''), ?s2)"
    by simp
  from remaining_Cons [OF ok1 r1] have ok2: "cursor_ok ?s2" and r2: "remaining ?s2 = inner"
    by simp_all
  from res_skip_whitespace_keeps [OF ok2] obtain s3 where ws2: "res_skip_whitespace ?s2 = Inr s3"
    by blast
  from res_expression_after_skip [OF ok2 ws2]
  have same: "res_expression s3 = res_expression ?s2" .
  from derives_consumes [OF parens.hyps(2)] obtain tok where
    inner: "inner = tok @ ws' @ CHR '')'' # rest" by blast
  let ?k = "length inner - length (ws' @ CHR '')'' # rest)"
  have k: "?k = length tok" by (simp add: inner)
  note IH = parens.IH [OF ok2 r2]
  note pre = ws pk gc ws2 same IH
  show ?case
  proof (cases "evaluate e")
    case (Inl f)
    with pre show ?thesis by (simp add: res_expression.simps [of s])
  next
    case (Inr v)
    let ?s4 = "advance ?k ?s2"
    from remaining_advance [OF ok2, of ?k] r2 k inner
    have ok4: "cursor_ok ?s4" and r4: "remaining ?s4 = ws' @ CHR '')'' # rest" by simp_all
    let ?s5 = "advance (length ws') ?s4"
    have "\<not> iswspace (CHR '')'')" by (simp add: iswspace_def)
    then have "CHR '')'' # rest = [] \<or> \<not> iswspace (hd (CHR '')'' # rest))" by simp
    from skip_to [OF ok4 r4 parens.hyps(3) this]
    have ws5: "res_skip_whitespace ?s4 = Inr ?s5" and ok5: "cursor_ok ?s5"
      and r5: "remaining ?s5 = CHR '')'' # rest" by simp_all
    from r5 res_expect_char_remaining [OF ok5, of "CHR '')''"]
    have ex: "res_expect_char (CHR '')'') ?s5 = Inr (Ok (CHR '')''), advance 1 ?s5)"
      by simp
    have "advance 1 ?s5 = advance (length (ws @ CHR ''('' # inner) - length rest) s"
      by (simp add: k inner)
    with pre Inr ws5 ex show ?thesis by (simp add: res_expression.simps [of s])
  qed
next
  case (operation ws c op s1 left s2 right s3)
  let ?t1 = "advance (length ws) s"
  from operator_Some [OF operation.hyps(2)]
  have c: "\<not> iswspace c" "\<not> isdigit c" "c \<noteq> CHR ''(''" by simp_all
  then have "c # s1 = [] \<or> \<not> iswspace (hd (c # s1))" by simp
  from skip_to [OF operation.prems(1) _ operation.hyps(1) this] operation.prems(2)
  have ws: "res_skip_whitespace s = Inr ?t1" and ok1: "cursor_ok ?t1"
    and r1: "remaining ?t1 = c # s1" by simp_all
  from r1 res_peek_remaining [OF ok1] have pk: "res_peek ?t1 = Inr c" by simp
  from c(2) have nd: "\<not> (CHR ''0'' \<le> c \<and> c \<le> CHR ''9'')" by (simp add: isdigit_def)
  from ws pk c(3) have top: "res_expression s = res_inner_expression ?t1"
    by (simp add: res_expression.simps [of s] nd)
  let ?t2 = "advance 1 ?t1"
  from r1 operation.hyps(2) res_operation_remaining [OF ok1]
  have op: "res_operation ?t1 = Inr (Ok op, ?t2)" by simp
  from remaining_Cons [OF ok1 r1] have ok2: "cursor_ok ?t2" and r2: "remaining ?t2 = s1"
    by simp_all
  from derives_consumes [OF operation.hyps(3)] obtain tok1 where s1: "s1 = tok1 @ s2" by blast
  from derives_consumes [OF operation.hyps(4)] obtain tok2 where s2: "s2 = tok2 @ s3" by blast
  note IH1 = operation.IH(1) [OF ok2 r2]
  show ?case
  proof (cases "evaluate left")
    case (Inl f)
    with top op IH1 show ?thesis by (simp add: res_inner_expression.simps [of ?t1])
  next
    case l: (Inr a)
    let ?t3 = "advance (length s1 - length s2) ?t2"
    from remaining_advance [OF ok2, of "length s1 - length s2"] r2 s1
    have ok3: "cursor_ok ?t3" and r3: "remaining ?t3 = s2" by simp_all
    note IH2 = operation.IH(2) [OF ok3 r3]
    have fin: "advance (length s2 - length s3) ?t3 = advance (length (ws @ c # s1) - length s3) s"
      by (simp add: s1 s2)
    show ?thesis
    proof (cases "evaluate right")
      case (Inl f)
      with top op IH1 l IH2 show ?thesis by (simp add: res_inner_expression.simps [of ?t1])
    next
      case r: (Inr b)
      show ?thesis
      proof (cases op)
        case Div
        with top op IH1 l IH2 r fin show ?thesis
          by (cases "int64_div a b") (simp_all add: res_inner_expression.simps [of ?t1])
      qed (use top op IH1 l IH2 r fin in \<open>simp_all add: res_inner_expression.simps [of ?t1]\<close>)
    qed
  qed
qed

lemma res_execute_derives: "derives prog e rest \<Longrightarrow> res_execute prog = evaluate e"
  using res_expression_derives [of prog e rest "Parser prog"]
  by (cases "evaluate e") (simp_all add: res_execute_def)

lemma sint_in_int64: "in_int64 v \<Longrightarrow> sint (word_of_int v :: int64) = v"
  by (simp add: in_int64_def signed_take_bit_int_eq_self sint_sbintrunc')

lemma int64_div_in_range:
  assumes a: "in_int64 a" and b: "in_int64 b" and nz: "b \<noteq> 0" and q: "in_int64 (a sdiv b)"
  shows "int64_div (word_of_int a) (word_of_int b) = Inr (word_of_int (a sdiv b))"
proof -
  have "(word_of_int b :: int64) \<noteq> 0"
  proof
    assume "(word_of_int b :: int64) = 0"
    then have "sint (word_of_int b :: int64) = 0" by simp
    with sint_in_int64 [OF b] nz show False by simp
  qed
  moreover have "\<not> ((word_of_int a :: int64) = - (2 ^ 63) \<and> (word_of_int b :: int64) = - 1)"
  proof
    assume both: "(word_of_int a :: int64) = - (2 ^ 63) \<and> (word_of_int b :: int64) = - 1"
    then have "sint (word_of_int a :: int64) = sint (- (2 ^ 63) :: int64)"
      and "sint (word_of_int b :: int64) = sint (- 1 :: int64)" by simp_all
    with sint_in_int64 [OF a] sint_in_int64 [OF b] have "a = - (2 ^ 63)" "b = - 1" by simp_all
    then have "a sdiv b = 2 ^ 63" by (simp add: signed_divide_int_def)
    with q show False by (simp add: in_int64_def)
  qed
  ultimately show ?thesis
    by (simp add: int64_div_def sint_in_int64 [OF a] sint_in_int64 [OF b])
qed

lemma evaluate_representable:
  "derives inp e rest \<Longrightarrow> representable e \<Longrightarrow>
     \<exists>v. value_of e = Some v \<and> in_int64 v \<and> evaluate e = Inr (word_of_int v)"
proof (induction rule: derives.induct)
  case (number ws ds rest)
  then show ?case by (simp add: digits_value_decimal)
next
  case (parens ws inner e ws' rest)
  then show ?case by simp
next
  case (operation ws c op s1 left s2 right s3)
  from operation.prems have rl: "representable left" and rr: "representable right" by simp_all
  from operation.IH(1) [OF rl] obtain a where
    a: "value_of left = Some a" "in_int64 a" "evaluate left = Inr (word_of_int a)" by blast
  from operation.IH(2) [OF rr] obtain b where
    b: "value_of right = Some b" "in_int64 b" "evaluate right = Inr (word_of_int b)" by blast
  show ?case
  proof (cases op)
    case Div
    with operation.prems a b have nz: "b \<noteq> 0" and q: "in_int64 (a sdiv b)"
      by (auto split: if_splits)
    from int64_div_in_range [OF a(2) b(2) nz q] Div a b nz q show ?thesis by simp
  qed (use operation.prems a b in auto)
qed

lemma derives_3_4: "derives ''+ 3 4'' (Apply Add (Number ''3'') (Number ''4'')) []"
proof -
  have l: "derives '' 3 4'' (Number ''3'') '' 4''"
    using derives.number [of "'' ''" "''3''" "'' 4''"] by (simp add: iswspace_def isdigit_def)
  have r: "derives '' 4'' (Number ''4'') []"
    using derives.number [of "'' ''" "''4''" "[]"] by (simp add: iswspace_def isdigit_def)
  from derives.operation [of "[]" "CHR ''+''" Add, OF _ _ l r] show ?thesis
    by (simp add: operator_def)
qed

lemma exc_execute_derives: "derives prog e rest \<Longrightarrow> exc_execute prog = evaluate e"
  by (simp add: exc_execute_eq res_execute_derives)

lemma derives_append:
  "derives inp e rest \<Longrightarrow>
     rest = [] \<longrightarrow> \<not> (isdigit (last inp) \<and> t \<noteq> [] \<and> isdigit (hd t)) \<Longrightarrow>
     derives (inp @ t) e (rest @ t)"
proof (induction rule: derives.induct)
  case (number ws ds rest)
  have "rest @ t = [] \<or> \<not> isdigit (hd (rest @ t))"
  proof (cases "rest = []")
    case False
    with number.hyps show ?thesis by simp
  next
    case True
    from number.hyps have "isdigit (last ds)" by (simp add: list_all_iff)
    with True number.hyps number.prems show ?thesis by simp
  qed
  from derives.number [OF number.hyps(1-3) this] show ?case by simp
next
  case (parens ws inner e ws' rest)
  from parens.IH have "derives (inner @ t) e (ws' @ CHR '')'' # rest @ t)" by simp
  from derives.parens [OF parens.hyps(1) this parens.hyps(3)] show ?case by simp
next
  case (operation ws c op s1 left s2 right s3)
  from derives_consumes [OF operation.hyps(3)] obtain tok1 where s1: "s1 = tok1 @ s2" by blast
  from derives_consumes [OF operation.hyps(4)] obtain tok2 where
    s2: "s2 = tok2 @ s3" and tok2: "tok2 \<noteq> []" by blast
  from s2 tok2 have ne: "s2 \<noteq> []" by simp
  with operation.IH(1) have l: "derives (s1 @ t) left (s2 @ t)" by simp
  from s1 ne have "last (ws @ c # s1) = last s2" by simp
  with operation.prems operation.IH(2) have r: "derives (s2 @ t) right (s3 @ t)" by simp
  from derives.operation [OF operation.hyps(1,2) l r] show ?case by simp
qed

section \<open>The two parsers agree\<close>

text \<open>
  C1. On every input, and from every cursor, the parser that throws and the parser that
  returns results do the same: they stop in the same undefined behaviour, or fail with the
  same \<open>ErrorKind\<close>, or succeed with the same \<open>int64\<close> value, and leave the cursor at the
  same place; so \<open>execute\<close> gives the same result in both.
\<close>

theorem exceptions_and_results_agree:
  "exc_expression s = exc_of_res (res_expression s) \<and>
   exc_inner_expression s = exc_of_res (res_inner_expression s) \<and>
   exc_execute prog = res_execute prog"
  by (simp add: exc_expression_eq exc_inner_expression_eq exc_execute_eq)

theorem exceptions_and_results_agree_witness:
  "exc_expression (Parser ''& 1 2'') =
     Inr (Inl InvalidOperator, \<lparr>program = ''& 1 2'', p = 1, endp = 5\<rparr>) \<and>
   exc_execute ''* (+ 1 2) 5'' = Inr 15"
proof -
  have "res_expression (Parser ''& 1 2'') =
      Inr (Err InvalidOperator, \<lparr>program = ''& 1 2'', p = 1, endp = 5\<rparr>)"
    by code_simp
  moreover have "res_execute ''* (+ 1 2) 5'' = Inr 15"
    by code_simp
  ultimately show ?thesis
    using exceptions_and_results_agree [of "Parser ''& 1 2''" "''* (+ 1 2) 5''"] by simp
qed

section \<open>The entry point\<close>

text \<open>
  C2, as the code has it. \<open>execute\<close> never signals an \<open>ErrorKind\<close> to its caller: whenever
  the parse fails with an \<open>ErrorKind\<close>, \<open>execute\<close> returns exactly 0, and when it succeeds
  \<open>execute\<close> returns its value. It returns an \<open>int64\<close> on every input on which no division
  is undefined: the one outcome other than a value is the division left unguarded, by zero
  or of the least \<open>int64\<close> by \<open>-1\<close>; no input makes it read outside the program.
\<close>

theorem execute_returns_or_divides:
  "(res_expression (Parser prog) = Inr (Err e, s') \<longrightarrow> res_execute prog = Inr 0) \<and>
   (exc_expression (Parser prog) = Inr (Inl e, s') \<longrightarrow> exc_execute prog = Inr 0) \<and>
   (res_expression (Parser prog) = Inr (Ok v, s') \<longrightarrow> res_execute prog = Inr v) \<and>
   (exc_expression (Parser prog) = Inr (Inr v, s') \<longrightarrow> exc_execute prog = Inr v) \<and>
   (res_execute prog = Inl DivideError \<or> (\<exists>v. res_execute prog = Inr v)) \<and>
   (exc_execute prog = Inl DivideError \<or> (\<exists>v. exc_execute prog = Inr v))"
proof -
  have post: "res_post (Parser prog) (res_expression (Parser prog))"
    by (rule res_expression_post) simp
  have res: "res_execute prog = Inl DivideError \<or> (\<exists>v. res_execute prog = Inr v)"
  proof (cases "res_expression (Parser prog)" rule: res_cases)
    case (Fault f)
    with post show ?thesis by (simp add: res_execute_def res_post_def)
  next
    case (Error e s1)
    then show ?thesis by (simp add: res_execute_def)
  next
    case (Value v s1)
    then show ?thesis by (simp add: res_execute_def)
  qed
  then have "exc_execute prog = Inl DivideError \<or> (\<exists>v. exc_execute prog = Inr v)"
    by (simp add: exc_execute_eq)
  with res show ?thesis by (simp add: res_execute_def exc_execute_def)
qed

theorem execute_returns_or_divides_witness:
  "res_expression (Parser ''+ 3'') = Inr (Err UnexpectedEOF, \<lparr>program = ''+ 3'', p = 3, endp = 3\<rparr>) \<and>
   res_execute ''+ 3'' = Inr 0"
proof -
  have "res_expression (Parser ''+ 3'') =
      Inr (Err UnexpectedEOF, \<lparr>program = ''+ 3'', p = 3, endp = 3\<rparr>)"
    by code_simp
  with execute_returns_or_divides [of "''+ 3''" UnexpectedEOF
      "\<lparr>program = ''+ 3'', p = 3, endp = 3\<rparr>"]
  show ?thesis by simp
qed

text \<open>
  C2 as the spec words it, "for every input string, execute returns an int64 value", fails:
  on \<^verbatim>\<open>"/ 1 0"\<close> the division by zero is evaluated and neither parser returns.
\<close>

theorem execute_division_by_zero:
  "res_execute ''/ 1 0'' = Inl DivideError \<and> exc_execute ''/ 1 0'' = Inl DivideError"
  by code_simp

section \<open>Well-formed programs\<close>

text \<open>
  C3, as the code has it. For every program that begins with an expression of the grammar
  (numbers read as the longest run of digits, any text after the expression) whose numbers
  and intermediate results all lie in the range of \<open>int64\<close> and whose divisors are not
  zero, \<open>execute\<close> returns the value of the expression in the integers, with the quotient
  truncated towards zero, in both parsers. In particular \<^verbatim>\<open>"+ 3 4"\<close> gives 7,
  \<^verbatim>\<open>"* (+ 1 2) 5"\<close> gives 15 and \<^verbatim>\<open>"- 10 (/ 20 4)"\<close> gives 5.
\<close>

theorem execute_computes_value:
  "(derives prog e rest \<and> representable e \<longrightarrow>
      (\<exists>v. value_of e = Some v \<and> in_int64 v \<and> sint (word_of_int v :: int64) = v \<and>
           res_execute prog = Inr (word_of_int v) \<and> exc_execute prog = Inr (word_of_int v))) \<and>
   res_execute ''+ 3 4'' = Inr 7 \<and> exc_execute ''+ 3 4'' = Inr 7 \<and>
   res_execute ''* (+ 1 2) 5'' = Inr 15 \<and> exc_execute ''* (+ 1 2) 5'' = Inr 15 \<and>
   res_execute ''- 10 (/ 20 4)'' = Inr 5 \<and> exc_execute ''- 10 (/ 20 4)'' = Inr 5"
proof -
  have general: "derives prog e rest \<and> representable e \<longrightarrow>
      (\<exists>v. value_of e = Some v \<and> in_int64 v \<and> sint (word_of_int v :: int64) = v \<and>
           res_execute prog = Inr (word_of_int v) \<and> exc_execute prog = Inr (word_of_int v))"
  proof
    assume "derives prog e rest \<and> representable e"
    then have d: "derives prog e rest" and r: "representable e" by simp_all
    from evaluate_representable [OF d r] obtain v where
      v: "value_of e = Some v" "in_int64 v" "evaluate e = Inr (word_of_int v)" by blast
    from v res_execute_derives [OF d] exc_execute_derives [OF d] sint_in_int64 [OF v(2)]
    show "\<exists>v. value_of e = Some v \<and> in_int64 v \<and> sint (word_of_int v :: int64) = v \<and>
           res_execute prog = Inr (word_of_int v) \<and> exc_execute prog = Inr (word_of_int v)"
      by auto
  qed
  have res: "res_execute ''+ 3 4'' = Inr 7" "res_execute ''* (+ 1 2) 5'' = Inr 15"
    "res_execute ''- 10 (/ 20 4)'' = Inr 5"
    by code_simp+
  then have exc: "exc_execute ''+ 3 4'' = Inr 7" "exc_execute ''* (+ 1 2) 5'' = Inr 15"
    "exc_execute ''- 10 (/ 20 4)'' = Inr 5"
    by (simp_all add: exc_execute_eq)
  from general res exc show ?thesis by blast
qed

theorem execute_computes_value_witness:
  "derives ''+ 3 4'' (Apply Add (Number ''3'') (Number ''4'')) [] \<and>
   representable (Apply Add (Number ''3'') (Number ''4'')) \<and>
   value_of (Apply Add (Number ''3'') (Number ''4'')) = Some 7 \<and>
   res_execute ''+ 3 4'' = Inr (word_of_int 7)"
proof -
  have v: "value_of (Apply Add (Number ''3'') (Number ''4'')) = Some 7"
    by (simp add: decimal_def)
  then have r: "representable (Apply Add (Number ''3'') (Number ''4''))"
    by (simp add: decimal_def in_int64_def)
  from execute_computes_value [of "''+ 3 4''" "Apply Add (Number ''3'') (Number ''4'')" "[]"]
    derives_3_4 r v
  show ?thesis by auto
qed

text \<open>
  C3 as the spec words it, for every well-formed program, fails where a value leaves the
  range of \<open>int64\<close>: the program \<^verbatim>\<open>"9223372036854775808"\<close> is a number of the grammar, its
  value is \<open>2 ^ 63\<close>, and \<open>execute\<close> returns \<open>- (2 ^ 63)\<close>.
\<close>

theorem execute_literal_out_of_range:
  "derives ''9223372036854775808'' (Number ''9223372036854775808'') [] \<and>
   value_of (Number ''9223372036854775808'') = Some 9223372036854775808 \<and>
   map_sum id sint (res_execute ''9223372036854775808'') = Inr (- 9223372036854775808) \<and>
   map_sum id sint (exc_execute ''9223372036854775808'') = Inr (- 9223372036854775808)"
proof -
  have d: "derives ''9223372036854775808'' (Number ''9223372036854775808'') []"
    using derives.number [of "[]" "''9223372036854775808''" "[]"] by (simp add: isdigit_def)
  have v: "value_of (Number ''9223372036854775808'') = Some 9223372036854775808"
    by (simp add: decimal_def)
  have "res_execute ''9223372036854775808'' = Inr (- 9223372036854775808)"
    by code_simp
  then have "map_sum id sint (res_execute ''9223372036854775808'') = Inr (- 9223372036854775808)"
    "map_sum id sint (exc_execute ''9223372036854775808'') = Inr (- 9223372036854775808)"
    by (simp_all add: exc_execute_eq)
  with d v show ?thesis by blast
qed

section \<open>A missing closing parenthesis\<close>

text \<open>
  C4. \<open>expect_char\<close> fails with \<open>InvalidCharacter\<close> only when a character was read and is not
  the expected one; at the end of the input it fails with \<open>UnexpectedEOF\<close>, as its \<open>get_char\<close>
  does. So \<^verbatim>\<open>"(+ 1 2 "\<close> is classified \<open>UnexpectedEOF\<close> and \<^verbatim>\<open>"(+ 1 2 x"\<close> is classified
  \<open>InvalidCharacter\<close>, by both parsers, and \<open>execute\<close> returns 0 on both.
\<close>

theorem expect_char_keeps_eof:
  "(res_expect_char c s = Inr (Err InvalidCharacter, s') \<longrightarrow>
      p s \<noteq> endp s \<and> p s < length (program s) \<and> program s ! p s \<noteq> c \<and>
      s' = s\<lparr>p := p s + 1\<rparr>) \<and>
   (exc_expect_char c s = Inr (Inl InvalidCharacter, s') \<longrightarrow>
      p s \<noteq> endp s \<and> p s < length (program s) \<and> program s ! p s \<noteq> c \<and>
      s' = s\<lparr>p := p s + 1\<rparr>) \<and>
   (p s = endp s \<longrightarrow>
      res_expect_char c s = Inr (Err UnexpectedEOF, s) \<and>
      exc_expect_char c s = Inr (Inl UnexpectedEOF, s)) \<and>
   res_expression (Parser ''(+ 1 2 '') =
     Inr (Err UnexpectedEOF, \<lparr>program = ''(+ 1 2 '', p = 7, endp = 7\<rparr>) \<and>
   exc_expression (Parser ''(+ 1 2 '') =
     Inr (Inl UnexpectedEOF, \<lparr>program = ''(+ 1 2 '', p = 7, endp = 7\<rparr>) \<and>
   res_expression (Parser ''(+ 1 2 x'') =
     Inr (Err InvalidCharacter, \<lparr>program = ''(+ 1 2 x'', p = 8, endp = 8\<rparr>) \<and>
   exc_expression (Parser ''(+ 1 2 x'') =
     Inr (Inl InvalidCharacter, \<lparr>program = ''(+ 1 2 x'', p = 8, endp = 8\<rparr>) \<and>
   res_execute ''(+ 1 2 '' = Inr 0 \<and> exc_execute ''(+ 1 2 '' = Inr 0 \<and>
   res_execute ''(+ 1 2 x'' = Inr 0 \<and> exc_execute ''(+ 1 2 x'' = Inr 0"
proof -
  have eof: "res_expression (Parser ''(+ 1 2 '') =
      Inr (Err UnexpectedEOF, \<lparr>program = ''(+ 1 2 '', p = 7, endp = 7\<rparr>)"
    by code_simp
  have bad: "res_expression (Parser ''(+ 1 2 x'') =
      Inr (Err InvalidCharacter, \<lparr>program = ''(+ 1 2 x'', p = 8, endp = 8\<rparr>)"
    by code_simp
  from eof bad have exc: "exc_expression (Parser ''(+ 1 2 '') =
      Inr (Inl UnexpectedEOF, \<lparr>program = ''(+ 1 2 '', p = 7, endp = 7\<rparr>)"
    "exc_expression (Parser ''(+ 1 2 x'') =
      Inr (Inl InvalidCharacter, \<lparr>program = ''(+ 1 2 x'', p = 8, endp = 8\<rparr>)"
    by (simp_all add: exc_expression_eq)
  from eof bad have ex: "res_execute ''(+ 1 2 '' = Inr 0" "res_execute ''(+ 1 2 x'' = Inr 0"
    by (simp_all add: res_execute_def)
  then have ex': "exc_execute ''(+ 1 2 '' = Inr 0" "exc_execute ''(+ 1 2 x'' = Inr 0"
    by (simp_all add: exc_execute_eq)
  from eof bad exc ex ex' res_expect_char_InvalidCharacter [of c s s']
    exc_expect_char_InvalidCharacter [of c s s'] expect_char_at_end [of s c]
  show ?thesis by blast
qed

theorem expect_char_keeps_eof_witness:
  "p \<lparr>program = ''(+ 1 2 '', p = 7, endp = 7\<rparr> = endp \<lparr>program = ''(+ 1 2 '', p = 7, endp = 7\<rparr> \<and>
   res_expect_char (CHR '')'') \<lparr>program = ''(+ 1 2 '', p = 7, endp = 7\<rparr> =
     Inr (Err UnexpectedEOF, \<lparr>program = ''(+ 1 2 '', p = 7, endp = 7\<rparr>) \<and>
   res_expect_char (CHR '')'') \<lparr>program = ''(+ 1 2 x'', p = 7, endp = 8\<rparr> =
     Inr (Err InvalidCharacter, \<lparr>program = ''(+ 1 2 x'', p = 8, endp = 8\<rparr>) \<and>
   ''(+ 1 2 x'' ! 7 \<noteq> CHR '')''"
proof -
  have bad: "res_expect_char (CHR '')'') \<lparr>program = ''(+ 1 2 x'', p = 7, endp = 8\<rparr> =
      Inr (Err InvalidCharacter, \<lparr>program = ''(+ 1 2 x'', p = 8, endp = 8\<rparr>)"
    by code_simp
  from expect_char_keeps_eof [of "CHR '')''" "\<lparr>program = ''(+ 1 2 '', p = 7, endp = 7\<rparr>"]
    expect_char_keeps_eof [of "CHR '')''" "\<lparr>program = ''(+ 1 2 x'', p = 7, endp = 8\<rparr>"
      "\<lparr>program = ''(+ 1 2 x'', p = 8, endp = 8\<rparr>"] bad
  show ?thesis by simp
qed

section \<open>The three kinds of failure\<close>

text \<open>
  C5. Each kind of failure arises in its own situation, in both parsers. From a cursor in
  order: where the input is exhausted, \<open>get_char\<close>, \<open>operation\<close> and \<open>expect_char\<close> fail with
  \<open>UnexpectedEOF\<close>; before a character, \<open>operation\<close> consumes it and fails with
  \<open>InvalidOperator\<close> exactly when it is none of \<open>+ - * /\<close>, and \<open>expect_char\<close> consumes it and
  fails with \<open>InvalidCharacter\<close> exactly when it is not the expected one. And when a whole
  parse fails, the cursor is left where the kind says: at the end of the input for
  \<open>UnexpectedEOF\<close>, just behind a consumed character that is no operator for
  \<open>InvalidOperator\<close>, just behind a consumed character other than the closing parenthesis
  for \<open>InvalidCharacter\<close>.
\<close>

theorem failure_kinds:
  "cursor_ok s \<Longrightarrow>
     (remaining s = [] \<longrightarrow>
        res_get_char s = Inr (Err UnexpectedEOF, s) \<and>
        res_operation s = Inr (Err UnexpectedEOF, s) \<and>
        res_expect_char c s = Inr (Err UnexpectedEOF, s) \<and>
        exc_get_char s = Inr (Inl UnexpectedEOF, s) \<and>
        exc_operation s = Inr (Inl UnexpectedEOF, s) \<and>
        exc_expect_char c s = Inr (Inl UnexpectedEOF, s)) \<and>
     (remaining s = x # xs \<longrightarrow>
        res_operation s =
          Inr (case operator x of Some op \<Rightarrow> Ok op | None \<Rightarrow> Err InvalidOperator, advance 1 s) \<and>
        exc_operation s =
          Inr (case operator x of Some op \<Rightarrow> Inr op | None \<Rightarrow> Inl InvalidOperator, advance 1 s) \<and>
        res_expect_char c s =
          Inr (if x \<noteq> c then Err InvalidCharacter else Ok x, advance 1 s) \<and>
        exc_expect_char c s =
          Inr (if x \<noteq> c then Inl InvalidCharacter else Inr (), advance 1 s) \<and>
        (operator x = None \<longleftrightarrow>
           x \<noteq> CHR ''+'' \<and> x \<noteq> CHR ''-'' \<and> x \<noteq> CHR ''*'' \<and> x \<noteq> CHR ''/'')) \<and>
     (res_expression s = Inr (Err e, s') \<longrightarrow>
        failure_site e s' \<and> p s \<le> p s' \<and> (e \<noteq> UnexpectedEOF \<longrightarrow> p s < p s')) \<and>
     (exc_expression s = Inr (Inl e, s') \<longrightarrow>
        failure_site e s' \<and> p s \<le> p s' \<and> (e \<noteq> UnexpectedEOF \<longrightarrow> p s < p s'))"
proof -
  assume ok: "cursor_ok s"
  have whole: "res_expression s = Inr (Err e, s') \<longrightarrow>
      failure_site e s' \<and> p s \<le> p s' \<and> (e \<noteq> UnexpectedEOF \<longrightarrow> p s < p s')"
    using res_expression_post(2) [OF ok] res_post_failure_site [of s e s'] by auto
  then have whole_exc: "exc_expression s = Inr (Inl e, s') \<longrightarrow>
      failure_site e s' \<and> p s \<le> p s' \<and> (e \<noteq> UnexpectedEOF \<longrightarrow> p s < p s')"
    by (simp add: exc_expression_eq exc_of_res_Inr)
  have eof: "remaining s = [] \<longrightarrow>
        res_get_char s = Inr (Err UnexpectedEOF, s) \<and>
        res_operation s = Inr (Err UnexpectedEOF, s) \<and>
        res_expect_char c s = Inr (Err UnexpectedEOF, s) \<and>
        exc_get_char s = Inr (Inl UnexpectedEOF, s) \<and>
        exc_operation s = Inr (Inl UnexpectedEOF, s) \<and>
        exc_expect_char c s = Inr (Inl UnexpectedEOF, s)"
    using ok by (simp add: res_get_char_remaining res_operation_remaining
        res_expect_char_remaining exc_get_char_remaining exc_operation_remaining
        exc_expect_char_remaining)
  have char: "remaining s = x # xs \<longrightarrow>
        res_operation s =
          Inr (case operator x of Some op \<Rightarrow> Ok op | None \<Rightarrow> Err InvalidOperator, advance 1 s) \<and>
        exc_operation s =
          Inr (case operator x of Some op \<Rightarrow> Inr op | None \<Rightarrow> Inl InvalidOperator, advance 1 s) \<and>
        res_expect_char c s =
          Inr (if x \<noteq> c then Err InvalidCharacter else Ok x, advance 1 s) \<and>
        exc_expect_char c s =
          Inr (if x \<noteq> c then Inl InvalidCharacter else Inr (), advance 1 s) \<and>
        (operator x = None \<longleftrightarrow>
           x \<noteq> CHR ''+'' \<and> x \<noteq> CHR ''-'' \<and> x \<noteq> CHR ''*'' \<and> x \<noteq> CHR ''/'')"
    using ok by (simp add: res_operation_remaining res_expect_char_remaining
        exc_operation_remaining exc_expect_char_remaining operator_None_iff)
  from eof char whole whole_exc show ?thesis by blast
qed

theorem failure_kinds_witness:
  "cursor_ok (Parser ''& 1 2'') \<and> remaining (Parser ''& 1 2'') = CHR ''&'' # '' 1 2'' \<and>
   res_operation (Parser ''& 1 2'') = Inr (Err InvalidOperator, advance 1 (Parser ''& 1 2'')) \<and>
   res_expect_char (CHR '')'') (Parser ''& 1 2'') =
     Inr (Err InvalidCharacter, advance 1 (Parser ''& 1 2'')) \<and>
   res_expression (Parser ''& 1 2'') =
     Inr (Err InvalidOperator, \<lparr>program = ''& 1 2'', p = 1, endp = 5\<rparr>) \<and>
   failure_site InvalidOperator \<lparr>program = ''& 1 2'', p = 1, endp = 5\<rparr> \<and>
   cursor_ok (Parser []) \<and> remaining (Parser []) = [] \<and>
   res_operation (Parser []) = Inr (Err UnexpectedEOF, Parser []) \<and>
   exc_expect_char (CHR '')'') (Parser []) = Inr (Inl UnexpectedEOF, Parser [])"
proof -
  have ok: "cursor_ok (Parser ''& 1 2'')" by simp
  have r: "remaining (Parser ''& 1 2'') = CHR ''&'' # '' 1 2''" by simp
  have run: "res_expression (Parser ''& 1 2'') =
      Inr (Err InvalidOperator, \<lparr>program = ''& 1 2'', p = 1, endp = 5\<rparr>)"
    by code_simp
  have ok': "cursor_ok (Parser [])" by simp
  have r': "remaining (Parser []) = []" by simp
  from failure_kinds [OF ok, where x = "CHR ''&''" and xs = "'' 1 2''" and c = "CHR '')''"
      and e = InvalidOperator and s' = "\<lparr>program = ''& 1 2'', p = 1, endp = 5\<rparr>"]
    failure_kinds [OF ok', where c = "CHR '')''"] ok r run ok' r'
  show ?thesis by (simp add: operator_def)
qed

section \<open>Numbers\<close>

text \<open>
  C6. \<open>number\<close> never fails: from any cursor in order it folds the longest run of decimal
  digits before it by \<^verbatim>\<open>result = result * 10 + digit\<close> in \<open>int64\<close>, which is the number the
  digits denote modulo \<open>2 ^ 64\<close>; it leaves the cursor at the first character that is no
  digit, or at the end of the input; where no digit stands it returns 0 and does not move.
\<close>

theorem number_folds_digits:
  "cursor_ok s \<Longrightarrow>
     res_number s =
       Inr (Ok (digits_value 0 (takeWhile isdigit (remaining s))),
            advance (length (takeWhile isdigit (remaining s))) s) \<and>
     exc_number s =
       Inr (Inr (digits_value 0 (takeWhile isdigit (remaining s))),
            advance (length (takeWhile isdigit (remaining s))) s) \<and>
     unat (digits_value 0 (takeWhile isdigit (remaining s))) =
       decimal (takeWhile isdigit (remaining s)) mod 2 ^ 64 \<and>
     remaining (advance (length (takeWhile isdigit (remaining s))) s) =
       dropWhile isdigit (remaining s) \<and>
     (takeWhile isdigit (remaining s) = [] \<longrightarrow> res_number s = Inr (Ok 0, s))"
proof -
  assume ok: "cursor_ok s"
  let ?ds = "takeWhile isdigit (remaining s)"
  have res: "res_number s = Inr (Ok (digits_value 0 ?ds), advance (length ?ds) s)"
    unfolding res_number_def using ok by (rule res_number_loop_remaining)
  then have exc: "exc_number s = Inr (Inr (digits_value 0 ?ds), advance (length ?ds) s)"
    by (simp add: exc_number_eq)
  have wrap: "unat (digits_value 0 ?ds) = decimal ?ds mod 2 ^ 64"
    by (simp add: digits_value_decimal unat_of_nat)
  have "length ?ds \<le> length (remaining s)" by (rule length_takeWhile_le)
  from remaining_advance [OF ok this]
  have rest: "remaining (advance (length ?ds) s) = dropWhile isdigit (remaining s)"
    by (simp add: dropWhile_eq_drop)
  from res have empty: "?ds = [] \<longrightarrow> res_number s = Inr (Ok 0, s)"
    by (simp add: digits_value_def)
  from res exc wrap rest empty show ?thesis by blast
qed

theorem number_folds_digits_witness:
  "cursor_ok (Parser ''12a'') \<and>
   res_number (Parser ''12a'') = Inr (Ok 12, \<lparr>program = ''12a'', p = 2, endp = 3\<rparr>) \<and>
   remaining \<lparr>program = ''12a'', p = 2, endp = 3\<rparr> = ''a'' \<and>
   cursor_ok (Parser ''a'') \<and> takeWhile isdigit (remaining (Parser ''a'')) = [] \<and>
   res_number (Parser ''a'') = Inr (Ok 0, Parser ''a'')"
proof -
  have ok: "cursor_ok (Parser ''12a'')" by simp
  have run: "takeWhile isdigit (remaining (Parser ''12a'')) = ''12''" by (simp add: isdigit_def)
  have ok': "cursor_ok (Parser ''a'')" by simp
  have none: "takeWhile isdigit (remaining (Parser ''a'')) = []" by (simp add: isdigit_def)
  have left: "remaining \<lparr>program = ''12a'', p = 2, endp = 3\<rparr> = ''a''"
    by (simp add: remaining_def)
  from number_folds_digits [OF ok] number_folds_digits [OF ok'] ok ok' none left show ?thesis
    unfolding run by (simp add: digits_value_def digit_value_def advance_def Parser_def)
qed

section \<open>Trailing characters\<close>

text \<open>
  C7, as the code has it. \<open>execute\<close> does not require the whole input to be consumed: for
  every input that is an expression of the grammar followed by further characters,
  \<open>execute\<close> returns what it returns on the expression alone, and ignores the further
  characters, unless the expression ends in a digit and the further characters begin with
  a digit (they are then read as more digits of the last number).
\<close>

theorem execute_ignores_trailing:
  "derives prog e [] \<Longrightarrow> \<not> (isdigit (last prog) \<and> t \<noteq> [] \<and> isdigit (hd t)) \<Longrightarrow>
     res_execute (prog @ t) = res_execute prog \<and> exc_execute (prog @ t) = exc_execute prog"
proof -
  assume d: "derives prog e []" and t: "\<not> (isdigit (last prog) \<and> t \<noteq> [] \<and> isdigit (hd t))"
  from derives_append [OF d, of t] t have "derives (prog @ t) e t" by simp
  from res_execute_derives [OF this] res_execute_derives [OF d]
  have "res_execute (prog @ t) = res_execute prog" by simp
  then show ?thesis by (simp add: exc_execute_eq)
qed

theorem execute_ignores_trailing_witness:
  "derives ''+ 3 4'' (Apply Add (Number ''3'') (Number ''4'')) [] \<and>
   \<not> (isdigit (last ''+ 3 4'') \<and> '' )x'' \<noteq> [] \<and> isdigit (hd '' )x'')) \<and>
   res_execute (''+ 3 4'' @ '' )x'') = res_execute ''+ 3 4'' \<and> res_execute ''+ 3 4'' = Inr 7"
proof -
  have t: "\<not> (isdigit (last ''+ 3 4'') \<and> '' )x'' \<noteq> [] \<and> isdigit (hd '' )x''))"
    by (simp add: isdigit_def)
  have v: "res_execute ''+ 3 4'' = Inr 7" by code_simp
  from execute_ignores_trailing [OF derives_3_4 t] derives_3_4 t v show ?thesis by blast
qed

text \<open>
  C7 as the spec words it, for arbitrary trailing characters, fails: \<^verbatim>\<open>"1"\<close> is an
  expression of the grammar and \<open>execute\<close> returns 1 on it, but on \<^verbatim>\<open>"1"\<close> followed by
  \<^verbatim>\<open>"2"\<close> it returns 12.
\<close>

theorem execute_trailing_digit:
  "derives ''1'' (Number ''1'') [] \<and> res_execute ''1'' = Inr 1 \<and>
   res_execute (''1'' @ ''2'') = Inr 12 \<and>
   exc_execute ''1'' = Inr 1 \<and> exc_execute (''1'' @ ''2'') = Inr 12"
proof -
  have d: "derives ''1'' (Number ''1'') []"
    using derives.number [of "[]" "''1''" "[]"] by (simp add: isdigit_def)
  have "res_execute ''1'' = Inr 1" "res_execute (''1'' @ ''2'') = Inr 12"
    by code_simp+
  with d show ?thesis by (simp add: exc_execute_eq)
qed

section \<open>The cursor\<close>

text \<open>
  C8. From a cursor in order, no operation of either parser (\<open>peek\<close>, \<open>get_char\<close>,
  \<open>skip_whitespace\<close>, \<open>expect_char\<close>, \<open>number\<close>, \<open>operation\<close>, \<open>inner_expression\<close>,
  \<open>expression\<close>) reads outside the program's bytes, and each leaves the cursor in order:
  the position has not decreased and is not beyond the end of the input. At the end of the
  input \<open>peek\<close> returns the sentinel 0 and \<open>get_char\<close> signals \<open>UnexpectedEOF\<close>, without reading.
\<close>

theorem cursor_invariant:
  "cursor_ok s \<Longrightarrow>
     res_peek s \<noteq> Inl OutOfBounds \<and> exc_peek s \<noteq> Inl OutOfBounds \<and>
     (p s = endp s \<longrightarrow>
        res_peek s = Inr (CHR 0x00) \<and> res_get_char s = Inr (Err UnexpectedEOF, s) \<and>
        exc_peek s = Inr (CHR 0x00) \<and> exc_get_char s = Inr (Inl UnexpectedEOF, s)) \<and>
     keeps_cursor s (res_get_char s) \<and>
     (\<exists>s'. res_skip_whitespace s = Inr s' \<and> keeps_cursor s (Inr ((), s'))) \<and>
     keeps_cursor s (res_expect_char c s) \<and>
     keeps_cursor s (res_number s) \<and>
     keeps_cursor s (res_operation s) \<and>
     keeps_cursor s (res_inner_expression s) \<and>
     keeps_cursor s (res_expression s) \<and>
     keeps_cursor s (exc_get_char s) \<and>
     keeps_cursor s (exc_skip_whitespace s) \<and>
     keeps_cursor s (exc_expect_char c s) \<and>
     keeps_cursor s (exc_number s) \<and>
     keeps_cursor s (exc_operation s) \<and>
     keeps_cursor s (exc_inner_expression s) \<and>
     keeps_cursor s (exc_expression s)"
proof -
  assume ok: "cursor_ok s"
  note res = res_get_char_keeps [OF ok] res_expect_char_keeps [OF ok, of c]
    res_number_keeps [OF ok] res_operation_keeps [OF ok]
    res_post_keeps_cursor [OF ok res_expression_post(1) [OF ok]]
    res_post_keeps_cursor [OF ok res_expression_post(2) [OF ok]]
  from res_skip_whitespace_keeps [OF ok] obtain s' where
    ws: "res_skip_whitespace s = Inr s'" "keeps_cursor s (Inr ((), s'))" by blast
  then have exc_ws: "keeps_cursor s (exc_skip_whitespace s)"
    by (simp add: exc_skip_whitespace_eq keeps_cursor_def)
  have exc_ex: "keeps_cursor s (exc_expect_char c s)"
    using res(2) by (cases "res_expect_char c s" rule: res_cases)
      (simp_all add: exc_expect_char_eq keeps_cursor_def)
  have exc: "keeps_cursor s (exc_get_char s)" "keeps_cursor s (exc_number s)"
    "keeps_cursor s (exc_operation s)" "keeps_cursor s (exc_inner_expression s)"
    "keeps_cursor s (exc_expression s)"
    using res by (simp_all add: exc_get_char_eq exc_number_eq exc_operation_eq
        exc_inner_expression_eq exc_expression_eq)
  have pk: "res_peek s \<noteq> Inl OutOfBounds" "exc_peek s \<noteq> Inl OutOfBounds"
    using res_peek_in_bounds [OF ok] by (simp_all add: exc_peek_eq)
  from pk at_end [of s] res ws exc_ws exc_ex exc show ?thesis by blast
qed

theorem cursor_invariant_witness:
  "cursor_ok (Parser ''+ 3 4'') \<and>
   keeps_cursor (Parser ''+ 3 4'') (res_expression (Parser ''+ 3 4'')) \<and>
   res_expression (Parser ''+ 3 4'') = Inr (Ok 7, \<lparr>program = ''+ 3 4'', p = 5, endp = 5\<rparr>) \<and>
   cursor_ok \<lparr>program = ''+ 3 4'', p = 5, endp = 5\<rparr> \<and>
   p \<lparr>program = ''+ 3 4'', p = 5, endp = 5\<rparr> = endp \<lparr>program = ''+ 3 4'', p = 5, endp = 5\<rparr> \<and>
   res_get_char \<lparr>program = ''+ 3 4'', p = 5, endp = 5\<rparr> =
     Inr (Err UnexpectedEOF, \<lparr>program = ''+ 3 4'', p = 5, endp = 5\<rparr>) \<and>
   res_peek \<lparr>program = ''+ 3 4'', p = 5, endp = 5\<rparr> = Inr (CHR 0x00)"
proof -
  have ok: "cursor_ok (Parser ''+ 3 4'')" by simp
  have ok': "cursor_ok \<lparr>program = ''+ 3 4'', p = 5, endp = 5\<rparr>" by (simp add: cursor_ok_def)
  have run: "res_expression (Parser ''+ 3 4'') =
      Inr (Ok 7, \<lparr>program = ''+ 3 4'', p = 5, endp = 5\<rparr>)"
    by code_simp
  from cursor_invariant [OF ok] cursor_invariant [OF ok'] ok ok' run show ?thesis by simp
qed

section \<open>Termination\<close>

text \<open>
  C9. Parsing terminates on every input: the recursion of \<open>inner_expression\<close> and
  \<open>expression\<close> is well-founded from every cursor, in both parsers. Each recursive call of
  \<open>expression\<close> is made with strictly fewer characters left than its caller had
  (after the operator, after the left operand, after the opening parenthesis), and the call
  of \<open>inner_expression\<close> with no more. From a cursor in order a call of either rule consumes
  at least one character, unless the input is exhausted, where it fails with
  \<open>UnexpectedEOF\<close> at once.
\<close>

theorem parsing_terminates:
  "res_inner_expression_res_expression_dom (Inl s) \<and>
   res_inner_expression_res_expression_dom (Inr s) \<and>
   exc_inner_expression_exc_expression_dom (Inl s) \<and>
   exc_inner_expression_exc_expression_dom (Inr s) \<and>
   (res_operation s = Inr (Ok op, s1) \<longrightarrow>
      length (program s1) - p s1 < length (program s) - p s) \<and>
   (res_operation s = Inr (Ok op, s1) \<and> res_expression s1 = Inr (Ok left, s2) \<longrightarrow>
      length (program s2) - p s2 < length (program s) - p s) \<and>
   (res_skip_whitespace s = Inr s1 \<and> res_peek s1 = Inr (CHR ''('') \<and>
    res_get_char s1 = Inr (x, s3) \<and> res_skip_whitespace s3 = Inr s4 \<longrightarrow>
      length (program s4) - p s4 < length (program s) - p s) \<and>
   (res_skip_whitespace s = Inr s1 \<longrightarrow>
      length (program s1) - p s1 \<le> length (program s) - p s) \<and>
   (cursor_ok s \<and> res_expression s = Inr (r, s') \<longrightarrow>
      p s < p s' \<or> r = Err UnexpectedEOF \<and> s' = s \<and> p s = endp s) \<and>
   (cursor_ok s \<and> res_inner_expression s = Inr (r, s') \<longrightarrow>
      p s < p s' \<or> r = Err UnexpectedEOF \<and> s' = s \<and> p s = endp s) \<and>
   (p s = endp s \<longrightarrow>
      res_inner_expression s = Inr (Err UnexpectedEOF, s) \<and>
      res_expression s = Inr (Err UnexpectedEOF, s))"
proof -
  have dom: "res_inner_expression_res_expression_dom (Inl s)"
    "res_inner_expression_res_expression_dom (Inr s)"
    "exc_inner_expression_exc_expression_dom (Inl s)"
    "exc_inner_expression_exc_expression_dom (Inr s)"
    by (rule res_expression_total exc_expression_total)+
  have progress: "cursor_ok s \<and> res_expression s = Inr (r, s') \<longrightarrow>
      p s < p s' \<or> r = Err UnexpectedEOF \<and> s' = s \<and> p s = endp s"
    "cursor_ok s \<and> res_inner_expression s = Inr (r, s') \<longrightarrow>
      p s < p s' \<or> r = Err UnexpectedEOF \<and> s' = s \<and> p s = endp s"
    using res_expression_post [of s] by (auto dest: res_post_progress)
  from dom progress before_call [of s] res_expression_at_end [of s] show ?thesis
    by blast
qed

theorem parsing_terminates_witness:
  "p (Parser []) = endp (Parser []) \<and> cursor_ok (Parser []) \<and>
   res_expression (Parser []) = Inr (Err UnexpectedEOF, Parser []) \<and>
   res_operation (Parser ''+1 2'') = Inr (Ok Add, \<lparr>program = ''+1 2'', p = 1, endp = 4\<rparr>) \<and>
   res_expression \<lparr>program = ''+1 2'', p = 1, endp = 4\<rparr> =
     Inr (Ok 1, \<lparr>program = ''+1 2'', p = 2, endp = 4\<rparr>) \<and>
   length (program \<lparr>program = ''+1 2'', p = 1, endp = 4\<rparr>) - p \<lparr>program = ''+1 2'', p = 1, endp = 4\<rparr>
     < length (program (Parser ''+1 2'')) - p (Parser ''+1 2'') \<and>
   length (program \<lparr>program = ''+1 2'', p = 2, endp = 4\<rparr>) - p \<lparr>program = ''+1 2'', p = 2, endp = 4\<rparr>
     < length (program (Parser ''+1 2'')) - p (Parser ''+1 2'') \<and>
   cursor_ok (Parser ''+1 2'') \<and>
   res_expression (Parser ''+1 2'') = Inr (Ok 3, \<lparr>program = ''+1 2'', p = 4, endp = 4\<rparr>) \<and>
   p (Parser ''+1 2'') < p \<lparr>program = ''+1 2'', p = 4, endp = 4\<rparr>"
proof -
  have e: "p (Parser []) = endp (Parser [])" by (simp add: Parser_def)
  have op: "res_operation (Parser ''+1 2'') = Inr (Ok Add, \<lparr>program = ''+1 2'', p = 1, endp = 4\<rparr>)"
    by code_simp
  have l: "res_expression \<lparr>program = ''+1 2'', p = 1, endp = 4\<rparr> =
      Inr (Ok 1, \<lparr>program = ''+1 2'', p = 2, endp = 4\<rparr>)"
    by code_simp
  have run: "res_expression (Parser ''+1 2'') = Inr (Ok 3, \<lparr>program = ''+1 2'', p = 4, endp = 4\<rparr>)"
    by code_simp
  from parsing_terminates [of "Parser []"] e
    parsing_terminates [where s = "Parser ''+1 2''" and op = Add
      and ?s1.0 = "\<lparr>program = ''+1 2'', p = 1, endp = 4\<rparr>" and left = 1
      and ?s2.0 = "\<lparr>program = ''+1 2'', p = 2, endp = 4\<rparr>" and r = "Ok 3"
      and s' = "\<lparr>program = ''+1 2'', p = 4, endp = 4\<rparr>"] op l run
  show ?thesis by simp
qed

section \<open>Numbers in the parser that returns results\<close>

text \<open>
  C10. In the parser that returns results, \<open>number\<close> never returns an error, from any
  cursor: when \<open>peek\<close> has returned a digit the cursor is not at the end of the input, so the
  \<open>get_char\<close> that follows returns that digit and not \<open>UnexpectedEOF\<close>; and from a cursor in
  order \<open>number\<close> returns a value.
\<close>

theorem res_number_never_fails:
  "res_number s \<noteq> Inr (Err e, s') \<and>
   (res_peek s = Inr d \<and> isdigit d \<longrightarrow> res_get_char s = Inr (Ok d, s\<lparr>p := p s + 1\<rparr>)) \<and>
   (cursor_ok s \<longrightarrow> (\<exists>v s1. res_number s = Inr (Ok v, s1)))"
proof -
  have "res_number s \<noteq> Inr (Err e, s')"
    unfolding res_number_def by (rule res_number_loop_no_Err)
  moreover have "cursor_ok s \<longrightarrow> (\<exists>v s1. res_number s = Inr (Ok v, s1))"
    by (simp add: res_number_def res_number_loop_remaining)
  ultimately show ?thesis using res_peek_digit_get_char [of s d] by blast
qed

theorem res_number_never_fails_witness:
  "res_peek (Parser ''7+'') = Inr (CHR ''7'') \<and> isdigit (CHR ''7'') \<and>
   res_get_char (Parser ''7+'') = Inr (Ok (CHR ''7''), \<lparr>program = ''7+'', p = 1, endp = 2\<rparr>) \<and>
   cursor_ok (Parser ''7+'') \<and>
   res_number (Parser ''7+'') = Inr (Ok 7, \<lparr>program = ''7+'', p = 1, endp = 2\<rparr>) \<and>
   res_number (Parser ''7+'') \<noteq> Inr (Err UnexpectedEOF, \<lparr>program = ''7+'', p = 1, endp = 2\<rparr>)"
proof -
  have pk: "res_peek (Parser ''7+'') = Inr (CHR ''7'')" by code_simp
  have d: "isdigit (CHR ''7'')" by code_simp
  have ok: "cursor_ok (Parser ''7+'')" by simp
  have run: "res_number (Parser ''7+'') = Inr (Ok 7, \<lparr>program = ''7+'', p = 1, endp = 2\<rparr>)"
    by code_simp
  from res_number_never_fails [of "Parser ''7+''" UnexpectedEOF
      "\<lparr>program = ''7+'', p = 1, endp = 2\<rparr>" "CHR ''7''"] pk d ok run
  show ?thesis by (simp add: Parser_def)
qed

end
